theory Spec2Isabelle
  imports Main "HOL-Library.Word"
begin

section \<open>Atomic cells\<close>

text \<open>
  \<^verbatim>\<open>std::atomic<T>::compare_exchange_strong(expected, desired)\<close> on a cell whose current
  value is \<open>cur\<close>: when \<open>cur = expected\<close> the cell becomes \<open>desired\<close> and the call
  returns true; otherwise the cell keeps its value, \<open>expected\<close> is overwritten with
  the value observed and the call returns false. The result is
  (success, new cell value, new value of \<open>expected\<close>).
\<close>

definition compare_exchange_strong :: "'v \<Rightarrow> 'v \<Rightarrow> 'v \<Rightarrow> bool \<times> 'v \<times> 'v" where
  "compare_exchange_strong cur expected desired =
     (if cur = expected then (True, desired, expected) else (False, cur, cur))"

section \<open>util/FixedSizeStack.hpp\<close>

text \<open>
  The stack of \<^verbatim>\<open>FixedSizeStack<T>\<close>: \<open>T\<close> is a pointer type (the constructor fills
  the vector with \<^verbatim>\<open>nullptr\<close>), modelled as \<open>'a option\<close> with \<open>None\<close> for the null
  pointer. \<^verbatim>\<open>size_t\<close> indices are natural numbers: they stay between 0 and the
  vector's size. The operations are executed by one thread at a time, so an operation
  that does not return (a loop that waits for another thread) has the value \<open>None\<close>.
\<close>

record 'a FixedSizeStack =
  mVec :: "'a option list"
  mHead :: nat
  mWriteHead :: nat

definition FixedSizeStack_init :: "nat \<Rightarrow> 'a FixedSizeStack" where
  "FixedSizeStack_init n = \<lparr>mVec = replicate n None, mHead = 0, mWriteHead = 0\<rparr>"

text \<open>\<^verbatim>\<open>pop\<close>: the result is (returned flag, value left in \<open>result\<close>) and the new stack.\<close>

partial_function (option) pop ::
    "'a FixedSizeStack \<Rightarrow> ((bool \<times> 'a option) \<times> 'a FixedSizeStack) option" where
  [code]: "pop s =
     (let head = mHead s in
      if head = 0 then Some ((False, None), s)
      else
        let result = mVec s ! (head - 1) in
        (case compare_exchange_strong (mHead s) head (head - 1) of
           (ok, v, _) \<Rightarrow>
             if ok then Some ((True, result), s\<lparr>mHead := v\<rparr>) else pop s))"

text \<open>
  The inner loop of \<^verbatim>\<open>push\<close>, which forwards \<open>mHead\<close> past the slot just written:
  \<^verbatim>\<open>while (head <= wHead) { if (head == wHead) ++mHead; head = mHead.load(); }\<close>
\<close>

partial_function (option) forwardHead ::
    "nat \<Rightarrow> nat \<Rightarrow> 'a FixedSizeStack \<Rightarrow> 'a FixedSizeStack option" where
  [code]: "forwardHead head wHead s =
     (if head \<le> wHead then
        (let s' = (if head = wHead then s\<lparr>mHead := mHead s + 1\<rparr> else s)
         in forwardHead (mHead s') wHead s')
      else Some s)"

partial_function (option) push ::
    "'a option \<Rightarrow> 'a FixedSizeStack \<Rightarrow> (bool \<times> 'a FixedSizeStack) option" where
  [code]: "push element s =
     (let wHead = mWriteHead s in
      if wHead = length (mVec s) then Some (False, s)
      else
        (case compare_exchange_strong (mWriteHead s) wHead (wHead + 1) of
           (ok, v, _) \<Rightarrow>
             if \<not> ok then push element s
             else
               (let s1 = s\<lparr>mWriteHead := v\<rparr>;
                    s2 = s1\<lparr>mVec := (mVec s1)[wHead := element]\<rparr>
                in case forwardHead (mHead s2) wHead s2 of
                     None \<Rightarrow> None
                   | Some s3 \<Rightarrow> Some (True, s3))))"

definition empty :: "'a FixedSizeStack \<Rightarrow> bool" where
  "empty s = (mHead s = length (mVec s))"

text \<open>
  A client of the stack: a sequence of calls made one after the other. The run has the
  value \<open>None\<close> as soon as one call does not return.
\<close>

datatype 'a stack_op = Push "'a option" | Pop

datatype 'a stack_result = PushResult bool | PopResult bool "'a option"

fun apply_op ::
    "'a stack_op \<Rightarrow> 'a FixedSizeStack \<Rightarrow> ('a stack_result \<times> 'a FixedSizeStack) option" where
  "apply_op (Push x) s =
     (case push x s of None \<Rightarrow> None | Some (b, s') \<Rightarrow> Some (PushResult b, s'))"
| "apply_op Pop s =
     (case pop s of None \<Rightarrow> None | Some ((b, r), s') \<Rightarrow> Some (PopResult b r, s'))"

fun run_ops ::
    "'a stack_op list \<Rightarrow> 'a FixedSizeStack \<Rightarrow> ('a stack_result list \<times> 'a FixedSizeStack) option" where
  "run_ops [] s = Some ([], s)"
| "run_ops (x # xs) s =
     (case apply_op x s of
        None \<Rightarrow> None
      | Some (r, s') \<Rightarrow>
          (case run_ops xs s' of None \<Rightarrow> None | Some (rs, s'') \<Rightarrow> Some (r # rs, s'')))"

definition successful_pushes :: "'a stack_result list \<Rightarrow> nat" where
  "successful_pushes rs = length (filter (\<lambda>r. r = PushResult True) rs)"

subsection \<open>What the operations compute\<close>

lemma pop_eq:
  "pop s =
     (if mHead s = 0 then Some ((False, None), s)
      else Some ((True, mVec s ! (mHead s - 1)), s\<lparr>mHead := mHead s - 1\<rparr>))"
  by (subst pop.simps) (simp add: compare_exchange_strong_def Let_def)

lemma forwardHead_at:
  "head = mHead s \<Longrightarrow> head = wHead \<Longrightarrow>
     forwardHead head wHead s = Some (s\<lparr>mHead := wHead + 1\<rparr>)"
  apply (subst forwardHead.simps)
  apply (simp add: Let_def)
  apply (subst forwardHead.simps)
  apply simp
  done

lemma forwardHead_above: "wHead < head \<Longrightarrow> forwardHead head wHead s = Some s"
  by (subst forwardHead.simps) simp

text \<open>
  With \<open>mHead\<close> below the slot just written and no other thread to advance it, the loop
  never leaves: the least fixed point is \<open>None\<close> there.
\<close>

lemma forwardHead_below_aux:
  "\<forall>wHead s s'. forwardHead (mHead s) wHead s = Some s' \<longrightarrow> \<not> mHead s < wHead"
proof (induction rule: forwardHead.fixp_induct)
  case 1
  have "(\<lambda>g. \<forall>wHead (s :: 'a FixedSizeStack) (s' :: 'a FixedSizeStack).
            g ((mHead s, wHead), s) = Some s' \<longrightarrow> \<not> mHead s < wHead) =
        (\<lambda>g. \<forall>x y. g x = Some y \<longrightarrow>
            (case x of ((head, wHead), s) \<Rightarrow> head = mHead s \<longrightarrow> \<not> mHead s < wHead))"
    by (intro ext) auto
  then show ?case by (simp only: curry_conv option_admissible)
next
  case 2
  show ?case by simp
next
  case (3 f)
  show ?case
  proof (intro allI impI)
    fix wHead s s'
    assume a: "(if mHead s \<le> wHead
        then let s' = if mHead s = wHead then s\<lparr>mHead := mHead s + 1\<rparr> else s
             in f (mHead s') wHead s'
        else Some s) = Some s'"
    show "\<not> mHead s < wHead"
    proof
      assume lt: "mHead s < wHead"
      with a have "f (mHead s) wHead s = Some s'" by simp
      with 3 lt show False by blast
    qed
  qed
qed

lemma forwardHead_below:
  "head = mHead s \<Longrightarrow> head < wHead \<Longrightarrow> forwardHead head wHead s = None"
  using forwardHead_below_aux [rule_format, of s wHead]
  by (cases "forwardHead head wHead s") auto

lemma push_eq:
  "push x s =
     (if mWriteHead s = length (mVec s) then Some (False, s)
      else if mHead s < mWriteHead s then None
      else if mHead s = mWriteHead s
        then Some (True, s\<lparr>mWriteHead := mWriteHead s + 1,
                            mVec := (mVec s)[mWriteHead s := x],
                            mHead := mWriteHead s + 1\<rparr>)
        else Some (True, s\<lparr>mWriteHead := mWriteHead s + 1,
                            mVec := (mVec s)[mWriteHead s := x]\<rparr>))"
  apply (subst push.simps)
  apply (simp add: compare_exchange_strong_def Let_def forwardHead_below forwardHead_at
      forwardHead_above)
  done

lemma run_ops_inv:
  "run_ops ops s0 = Some (rs, s) \<Longrightarrow> mWriteHead s0 \<le> length (mVec s0) \<Longrightarrow>
     length (mVec s) = length (mVec s0) \<and>
     mWriteHead s = mWriteHead s0 + successful_pushes rs \<and>
     mWriteHead s \<le> length (mVec s)"
proof (induction ops arbitrary: s0 rs)
  case Nil
  then show ?case by (simp add: successful_pushes_def)
next
  case (Cons x xs)
  show ?case
  proof (cases x)
    case (Push e)
    with Cons.prems obtain b s1 rs' where p: "push e s0 = Some (b, s1)"
      and r: "run_ops xs s1 = Some (rs', s)" and rs: "rs = PushResult b # rs'"
      by (auto split: option.splits)
    from p Cons.prems(2) have s1: "length (mVec s1) = length (mVec s0)"
      "mWriteHead s1 \<le> length (mVec s1)" "mWriteHead s1 = mWriteHead s0 + (if b then 1 else 0)"
      by (auto simp: push_eq split: if_splits)
    from Cons.IH [OF r s1(2)] s1 rs show ?thesis by (auto simp: successful_pushes_def)
  next
    case Pop
    with Cons.prems obtain b v s1 rs' where p: "pop s0 = Some ((b, v), s1)"
      and r: "run_ops xs s1 = Some (rs', s)" and rs: "rs = PopResult b v # rs'"
      by (auto split: option.splits)
    from p Cons.prems(2) have s1: "length (mVec s1) = length (mVec s0)"
      "mWriteHead s1 \<le> length (mVec s1)" "mWriteHead s1 = mWriteHead s0"
      by (auto simp: pop_eq split: if_splits)
    from Cons.IH [OF r s1(2)] s1 rs show ?thesis by (auto simp: successful_pushes_def)
  qed
qed

text \<open>
  C9. \<^verbatim>\<open>empty()\<close> is meant to say that the stack holds no element, which is when
  \<^verbatim>\<open>pop\<close> returns false. The code compares \<open>mHead\<close> with the vector's size instead of
  0: on a fresh stack of capacity 2 \<^verbatim>\<open>empty()\<close> is false although \<^verbatim>\<open>pop\<close> fails, and
  after two pushes \<^verbatim>\<open>empty()\<close> is true although \<^verbatim>\<open>pop\<close> returns the element on top.
\<close>

theorem FixedSizeStack_empty_contradicts_pop:
  "empty (FixedSizeStack_init 2 :: nat FixedSizeStack) = False \<and>
   pop (FixedSizeStack_init 2 :: nat FixedSizeStack) = Some ((False, None), FixedSizeStack_init 2) \<and>
   run_ops [Push (Some (1::nat)), Push (Some 2)] (FixedSizeStack_init 2) =
     Some ([PushResult True, PushResult True],
           \<lparr>mVec = [Some 1, Some 2], mHead = 2, mWriteHead = 2\<rparr>) \<and>
   empty \<lparr>mVec = [Some (1::nat), Some 2], mHead = 2, mWriteHead = 2\<rparr> = True \<and>
   pop \<lparr>mVec = [Some (1::nat), Some 2], mHead = 2, mWriteHead = 2\<rparr> =
     Some ((True, Some 2), \<lparr>mVec = [Some 1, Some 2], mHead = 1, mWriteHead = 2\<rparr>)"
proof -
  have "run_ops [Push (Some (1::nat)), Push (Some 2)] (FixedSizeStack_init 2) =
     Some ([PushResult True, PushResult True],
           \<lparr>mVec = [Some 1, Some 2], mHead = 2, mWriteHead = 2\<rparr>)"
    by (simp add: push_eq FixedSizeStack_init_def numeral_2_eq_2)
  then show ?thesis
    by (simp add: empty_def pop_eq FixedSizeStack_init_def)
qed

text \<open>
  C10. On a stack constructed with capacity \<open>n\<close>, whatever sequence of pushes and pops
  has been executed, the write head equals the number of pushes that succeeded, that
  number is at most \<open>n\<close>, and once it has reached \<open>n\<close> a further push returns false and
  leaves the stack as it is: the pops in between have made no room.
\<close>

theorem FixedSizeStack_push_bound:
  assumes "run_ops ops (FixedSizeStack_init n) = Some (rs, s)"
  shows "mWriteHead s = successful_pushes rs \<and> successful_pushes rs \<le> n \<and>
         (successful_pushes rs = n \<longrightarrow> push x s = Some (False, s))"
proof -
  have "mWriteHead (FixedSizeStack_init n :: 'a FixedSizeStack)
          \<le> length (mVec (FixedSizeStack_init n :: 'a FixedSizeStack))"
    by (simp add: FixedSizeStack_init_def)
  from run_ops_inv [OF assms this]
  have "length (mVec s) = n" and "mWriteHead s = successful_pushes rs"
    and "mWriteHead s \<le> length (mVec s)"
    by (simp_all add: FixedSizeStack_init_def)
  then show ?thesis by (simp add: push_eq)
qed

theorem FixedSizeStack_push_bound_witness:
  "run_ops [Push (Some (1::nat)), Push (Some 2), Pop, Push (Some 3)] (FixedSizeStack_init 2) =
     Some ([PushResult True, PushResult True, PopResult True (Some 2), PushResult False],
           \<lparr>mVec = [Some 1, Some 2], mHead = 1, mWriteHead = 2\<rparr>) \<and>
   successful_pushes
     [PushResult True, PushResult True, PopResult True (Some (2::nat)), PushResult False] = 2 \<and>
   push (Some 4) \<lparr>mVec = [Some (1::nat), Some 2], mHead = 1, mWriteHead = 2\<rparr> =
     Some (False, \<lparr>mVec = [Some 1, Some 2], mHead = 1, mWriteHead = 2\<rparr>)"
proof -
  have r: "run_ops [Push (Some (1::nat)), Push (Some 2), Pop, Push (Some 3)]
             (FixedSizeStack_init 2) =
     Some ([PushResult True, PushResult True, PopResult True (Some 2), PushResult False],
           \<lparr>mVec = [Some 1, Some 2], mHead = 1, mWriteHead = 2\<rparr>)"
    by (simp add: push_eq pop_eq FixedSizeStack_init_def numeral_2_eq_2)
  have c: "successful_pushes
      [PushResult True, PushResult True, PopResult True (Some (2::nat)), PushResult False] = 2"
    by (simp add: successful_pushes_def)
  from FixedSizeStack_push_bound [OF r, of "Some 4"] r c show ?thesis by simp
qed

section \<open>server/ServerSocket.cpp: resolving the snapshot of a request\<close>

text \<open>
  The error codes the server writes (\<^verbatim>\<open>tellstore/ErrorCode.hpp\<close>, spelled as the
  code spells them).
\<close>

datatype error_code =
  unkown_request | invalid_table | invalid_snapshot | invalid_scan | server_overlad

text \<open>
  A snapshot descriptor with the fields of its wire format (lowest active version, base
  version, version, and the bitset of versions in flight).
\<close>

record SnapshotDescriptor =
  snapshot_lowestActiveVersion :: "64 word"
  snapshot_baseVersion :: "64 word"
  snapshot_version :: "64 word"
  snapshot_descriptor :: "bool list"

text \<open>
  The part of a request \<^verbatim>\<open>handleSnapshot\<close> reads: the two flag bytes, and what the bytes
  after them yield when read as a 64-bit version (\<open>versionField\<close>) and when deserialized
  as a descriptor (\<open>descriptorField\<close>); the code picks one of the two readings from the
  flags.
\<close>

record snapshot_message =
  cachedByte :: "8 word"
  hasDescriptorByte :: "8 word"
  versionField :: "64 word"
  descriptorField :: SnapshotDescriptor

type_synonym snapshot_cache = "64 word \<rightharpoonup> SnapshotDescriptor"

text \<open>
  \<^verbatim>\<open>ServerSocket::handleSnapshot(messageId, message, f)\<close>. The result is the response
  (\<open>Inl\<close> an error response, \<open>Inr\<close> what the operation \<open>f\<close> does with the snapshot)
  and the connection's cache \<open>mSnapshots\<close> afterwards. \<^verbatim>\<open>emplace\<close> leaves the map as it
  is when the key is present.
\<close>

definition handleSnapshot ::
    "(SnapshotDescriptor \<Rightarrow> 'r) \<Rightarrow> snapshot_cache \<Rightarrow> snapshot_message \<Rightarrow>
       (error_code + 'r) \<times> snapshot_cache" where
  "handleSnapshot f mSnapshots message =
     (let cached = (cachedByte message \<noteq> 0);
          hasDescriptor = (hasDescriptorByte message \<noteq> 0)
      in if cached then
           (if \<not> hasDescriptor then
              (case mSnapshots (versionField message) of
                 None \<Rightarrow> (Inl invalid_snapshot, mSnapshots)
               | Some snapshot \<Rightarrow> (Inr (f snapshot), mSnapshots))
            else
              (let snapshot = descriptorField message in
               case mSnapshots (snapshot_version snapshot) of
                 Some _ \<Rightarrow> (Inl invalid_snapshot, mSnapshots)
               | None \<Rightarrow> (Inr (f snapshot), mSnapshots(snapshot_version snapshot \<mapsto> snapshot))))
         else if hasDescriptor then (Inr (f (descriptorField message)), mSnapshots)
         else (Inl invalid_snapshot, mSnapshots))"

text \<open>
  The misuse cases in the words of the claim: neither a cached version nor a descriptor;
  a cached version that the cache does not hold; a descriptor whose version the cache
  already holds.
\<close>

definition misuse_as_claimed :: "snapshot_cache \<Rightarrow> snapshot_message \<Rightarrow> bool" where
  "misuse_as_claimed mSnapshots message =
     ((cachedByte message = 0 \<and> hasDescriptorByte message = 0) \<or>
      (cachedByte message \<noteq> 0 \<and> hasDescriptorByte message = 0 \<and>
         mSnapshots (versionField message) = None) \<or>
      (hasDescriptorByte message \<noteq> 0 \<and>
         mSnapshots (snapshot_version (descriptorField message)) \<noteq> None))"

text \<open>
  The misuse cases of the code: the third one only when the request also asks for the
  descriptor to be cached.
\<close>

definition misuse :: "snapshot_cache \<Rightarrow> snapshot_message \<Rightarrow> bool" where
  "misuse mSnapshots message =
     ((cachedByte message = 0 \<and> hasDescriptorByte message = 0) \<or>
      (cachedByte message \<noteq> 0 \<and> hasDescriptorByte message = 0 \<and>
         mSnapshots (versionField message) = None) \<or>
      (cachedByte message \<noteq> 0 \<and> hasDescriptorByte message \<noteq> 0 \<and>
         mSnapshots (snapshot_version (descriptorField message)) \<noteq> None))"

text \<open>The snapshot a well-formed request resolves to.\<close>

definition resolved :: "snapshot_cache \<Rightarrow> snapshot_message \<Rightarrow> SnapshotDescriptor" where
  "resolved mSnapshots message =
     (if hasDescriptorByte message \<noteq> 0 then descriptorField message
      else the (mSnapshots (versionField message)))"

definition sd5 :: SnapshotDescriptor where
  "sd5 = \<lparr>snapshot_lowestActiveVersion = 1, snapshot_baseVersion = 4,
           snapshot_version = 5, snapshot_descriptor = []\<rparr>"

definition uncached_message :: snapshot_message where
  "uncached_message =
     \<lparr>cachedByte = 0, hasDescriptorByte = 1, versionField = 0, descriptorField = sd5\<rparr>"

definition cached_message :: snapshot_message where
  "cached_message =
     \<lparr>cachedByte = 1, hasDescriptorByte = 0, versionField = 5, descriptorField = sd5\<rparr>"

lemma handleSnapshot_cases:
  "handleSnapshot f mSnapshots message =
     (if misuse mSnapshots message then (Inl invalid_snapshot, mSnapshots)
      else (Inr (f (resolved mSnapshots message)),
            if cachedByte message \<noteq> 0 \<and> hasDescriptorByte message \<noteq> 0
            then mSnapshots(snapshot_version (descriptorField message) \<mapsto> descriptorField message)
            else mSnapshots))"
  by (auto simp: handleSnapshot_def misuse_def resolved_def Let_def split: option.splits)

text \<open>
  C8, as stated, fails: a request that is not to be cached and carries the descriptor of
  version 5, on a connection whose cache already holds version 5, is one of the claim's
  misuse cases, and the server executes the operation with the descriptor sent.
\<close>

theorem handleSnapshot_uncached_duplicate:
  "misuse_as_claimed [5 \<mapsto> sd5] uncached_message \<and>
   handleSnapshot snapshot_version [5 \<mapsto> sd5] uncached_message = (Inr 5, [5 \<mapsto> sd5])"
  by (simp add: misuse_as_claimed_def handleSnapshot_def uncached_message_def sd5_def)

text \<open>
  C8, amended. The server answers invalid-snapshot exactly when the request provides
  neither a cached version nor a descriptor, or names a cached version absent from the
  cache, or sends a descriptor to be cached whose version the cache already holds; then
  the cache is unchanged. In every other case the operation is executed with the
  resolved snapshot (the cached one, or the descriptor sent), and the cache gains the
  descriptor exactly when the request asked for it to be cached.
\<close>

theorem handleSnapshot_invalid_iff:
  "(fst (handleSnapshot f mSnapshots message) = Inl invalid_snapshot) =
     misuse mSnapshots message \<and>
   (if misuse mSnapshots message
    then handleSnapshot f mSnapshots message = (Inl invalid_snapshot, mSnapshots)
    else handleSnapshot f mSnapshots message =
           (Inr (f (resolved mSnapshots message)),
            if cachedByte message \<noteq> 0 \<and> hasDescriptorByte message \<noteq> 0
            then mSnapshots(snapshot_version (descriptorField message) \<mapsto> descriptorField message)
            else mSnapshots))"
proof (cases "misuse mSnapshots message")
  case True
  then show ?thesis by (simp add: handleSnapshot_cases)
next
  case False
  then show ?thesis by (simp add: handleSnapshot_cases)
qed

theorem handleSnapshot_invalid_iff_witness:
  "\<not> misuse [5 \<mapsto> sd5] cached_message \<and>
   handleSnapshot snapshot_version [5 \<mapsto> sd5] cached_message = (Inr 5, [5 \<mapsto> sd5]) \<and>
   misuse Map.empty cached_message \<and>
   handleSnapshot snapshot_version Map.empty cached_message = (Inl invalid_snapshot, Map.empty)"
proof -
  have a: "\<not> misuse [5 \<mapsto> sd5] cached_message" and b: "misuse Map.empty cached_message"
    by (simp_all add: misuse_def cached_message_def)
  have c: "resolved [5 \<mapsto> sd5] cached_message = sd5"
    by (simp add: resolved_def cached_message_def)
  have d: "cachedByte cached_message \<noteq> 0 \<and> hasDescriptorByte cached_message = 0"
    by (simp add: cached_message_def)
  from handleSnapshot_invalid_iff [of snapshot_version "[5 \<mapsto> sd5]" cached_message]
    handleSnapshot_invalid_iff [of snapshot_version Map.empty cached_message] a b c d
  show ?thesis by (simp add: sd5_def)
qed

section \<open>deltamain/colstore/ColumnMapPage.cpp: the column-map page modifier\<close>

subsection \<open>Data\<close>

text \<open>
  The word held by a record's \<^verbatim>\<open>newest\<close>: zero, an untagged pointer to an update log
  entry, a pointer to a main entry tagged \<^verbatim>\<open>NewestPointerTag::MAIN\<close>, or the tag
  \<^verbatim>\<open>NewestPointerTag::INVALID\<close>. A main entry is addressed by its page and its row.
\<close>

datatype newest_ptr = NullPtr | UpdatePtr nat | MainPtr "nat \<times> nat" | InvalidTag

datatype RecordType = DATA | DELETE

text \<open>
  An update log entry as \<^verbatim>\<open>processUpdates\<close> reads it: the type of its log entry, the key
  and version, and its data with \<open>dataSize\<close> the value of
  \<^verbatim>\<open>logEntry->size() - sizeof(UpdateLogEntry)\<close>.
\<close>

record 'd UpdateLogEntry =
  logType :: RecordType
  logKey :: "64 word"
  logVersion :: "64 word"
  dataSize :: nat
  logData :: 'd

text \<open>
  What the modifier reads from \<^verbatim>\<open>ColumnMapContext\<close>, whose declaration is not part of
  the sources: the constants are parameters.
\<close>

record ColumnMapContext =
  entryOverhead :: nat
  fixedSize :: nat
  fixedSizeCapacity :: nat
  MAX_DATA_SIZE :: nat

record ColumnMapMainEntry =
  key :: "64 word"
  version :: "64 word"
  newest :: newest_ptr

text \<open>
  A column-map page: the row count of its header, the entries, the sizes (0 marks a
  delete) and, as one value per row, the row's fields in \<^verbatim>\<open>recordData\<close> and on the heap.
  Arrays are functions of the row index; the code reads a row only below \<open>count\<close>.
\<close>

record 'd ColumnMapMainPage =
  count :: nat
  entryData :: "nat \<Rightarrow> ColumnMapMainEntry"
  sizeData :: "nat \<Rightarrow> nat"
  recordData :: "nat \<Rightarrow> 'd"

text \<open>
  A clean action copies the rows \<open>startIdx..<endIdx\<close> of a page; the correction of the
  heap offsets it carries in the code is part of the byte layout and left out.
\<close>

record CleanAction =
  actionPage :: nat
  startIdx :: nat
  endIdx :: nat

record PointerAction =
  ptr :: "nat \<times> nat"
  expected :: newest_ptr
  desired :: "nat \<times> nat"

text \<open>
  The modifier's members, together with what it shares with the rest of the store:
  the pages in memory (\<open>pages\<close>, by page number), the page manager's count of pages
  handed out, the hash table behind \<^verbatim>\<open>mMainTableModifier\<close>, and \<open>sched\<close>, the stores that
  concurrent writers make to \<^verbatim>\<open>newest\<close> words: one batch of stores takes effect before
  each atomic access of the modifier, in order, and none once the list is used up.
  Indices and sizes are natural numbers: the code decrements one only after it has
  incremented it for the same record.
\<close>

record 'd modifier =
  mMinVersion :: "64 word"
  mUpdatePage :: nat
  mUpdateStartIdx :: nat
  mUpdateEndIdx :: nat
  mUpdateIdx :: nat
  mFillPage :: nat
  mFillEndIdx :: nat
  mFillIdx :: nat
  mFillSize :: nat
  mCleanActions :: "CleanAction list"
  mPointerActions :: "PointerAction list"
  mPageList :: "nat list"
  pages :: "nat \<Rightarrow> 'd ColumnMapMainPage"
  allocated :: nat
  mainTable :: "64 word \<rightharpoonup> nat \<times> nat"
  sched :: "((nat \<times> nat) \<times> newest_ptr) list list"

subsection \<open>Memory\<close>

definition loadNewest :: "nat \<times> nat \<Rightarrow> 'd modifier \<Rightarrow> newest_ptr" where
  "loadNewest r st = newest (entryData (pages st (fst r)) (snd r))"

definition storeNewest :: "nat \<times> nat \<Rightarrow> newest_ptr \<Rightarrow> 'd modifier \<Rightarrow> 'd modifier" where
  "storeNewest r v st =
     st\<lparr>pages := (pages st)(fst r := (pages st (fst r))
        \<lparr>entryData := (entryData (pages st (fst r)))
           (snd r := (entryData (pages st (fst r)) (snd r))\<lparr>newest := v\<rparr>)\<rparr>)\<rparr>"

definition interfere :: "'d modifier \<Rightarrow> 'd modifier" where
  "interfere st =
     (case sched st of
        [] \<Rightarrow> st
      | ws # rest \<Rightarrow> (foldl (\<lambda>s w. storeNewest (fst w) (snd w) s) st ws)\<lparr>sched := rest\<rparr>)"

text \<open>\<^verbatim>\<open>newest.load()\<close> and \<^verbatim>\<open>newest.compare_exchange_strong(expected, desired)\<close>.\<close>

definition atomicLoad :: "nat \<times> nat \<Rightarrow> 'd modifier \<Rightarrow> newest_ptr \<times> 'd modifier" where
  "atomicLoad r st = (let st1 = interfere st in (loadNewest r st1, st1))"

definition atomicCAS ::
    "nat \<times> nat \<Rightarrow> newest_ptr \<Rightarrow> newest_ptr \<Rightarrow> 'd modifier \<Rightarrow>
       bool \<times> newest_ptr \<times> 'd modifier" where
  "atomicCAS r expd des st =
     (let st1 = interfere st in
      case compare_exchange_strong (loadNewest r st1) expd des of
        (ok, v, e) \<Rightarrow> (ok, e, if ok then storeNewest r v st1 else st1))"

text \<open>\<^verbatim>\<open>mPageManager.alloc()\<close> hands out the next page, zero-initialized.\<close>

definition zero_page :: "('d::zero) ColumnMapMainPage" where
  "zero_page = \<lparr>count = 0, entryData = (\<lambda>_. \<lparr>key = 0, version = 0, newest = NullPtr\<rparr>),
                 sizeData = (\<lambda>_. 0), recordData = (\<lambda>_. 0)\<rparr>"

definition alloc :: "('d::zero) modifier \<Rightarrow> nat \<times> 'd modifier" where
  "alloc st = (allocated st, st\<lparr>allocated := allocated st + 1,
                                 pages := (pages st)(allocated st := zero_page)\<rparr>)"

text \<open>
  The constructor: an update page with \<open>fixedSizeCapacity\<close> rows and an empty fill page,
  both fresh. \<open>memory\<close>, \<open>used\<close>, \<open>table\<close> and \<open>schedule\<close> are the store the modifier
  works in.
\<close>

definition ColumnMapPageModifier_init ::
    "ColumnMapContext \<Rightarrow> (nat \<Rightarrow> ('d::zero) ColumnMapMainPage) \<Rightarrow> nat \<Rightarrow>
       (64 word \<rightharpoonup> nat \<times> nat) \<Rightarrow> ((nat \<times> nat) \<times> newest_ptr) list list \<Rightarrow> 64 word \<Rightarrow>
       'd modifier" where
  "ColumnMapPageModifier_init ctx memory used table schedule minVersion =
     \<lparr>mMinVersion = minVersion,
      mUpdatePage = used, mUpdateStartIdx = 0, mUpdateEndIdx = 0, mUpdateIdx = 0,
      mFillPage = used + 1, mFillEndIdx = 0, mFillIdx = 0, mFillSize = 0,
      mCleanActions = [], mPointerActions = [], mPageList = [],
      pages = memory(used := zero_page\<lparr>count := fixedSizeCapacity ctx\<rparr>, used + 1 := zero_page),
      allocated = used + 2, mainTable = table, sched = schedule\<rparr>"

subsection \<open>writeUpdate and writeData\<close>

text \<open>
  \<^verbatim>\<open>new (mFillPage->entryData() + mFillIdx) ColumnMapMainEntry(key, version)\<close>: the new
  entry has no delta chain.
\<close>

definition writeFillEntry :: "64 word \<Rightarrow> 64 word \<Rightarrow> 'd modifier \<Rightarrow> 'd modifier" where
  "writeFillEntry k v st =
     st\<lparr>pages := (pages st)(mFillPage st := (pages st (mFillPage st))
        \<lparr>entryData := (entryData (pages st (mFillPage st)))
           (mFillIdx st := \<lparr>key = k, version = v, newest = NullPtr\<rparr>)\<rparr>)\<rparr>"

definition writeData :: "'d \<Rightarrow> nat \<Rightarrow> 'd modifier \<Rightarrow> 'd modifier" where
  "writeData d sz st =
     st\<lparr>pages := (pages st)(mUpdatePage st := (pages st (mUpdatePage st))
        \<lparr>sizeData := (sizeData (pages st (mUpdatePage st)))(mUpdateIdx st := sz),
         recordData := (recordData (pages st (mUpdatePage st)))(mUpdateIdx st := d)\<rparr>)\<rparr>"

definition writeUpdate :: "'d UpdateLogEntry \<Rightarrow> 'd modifier \<Rightarrow> 'd modifier" where
  "writeUpdate entry st =
     (let st1 = writeFillEntry (logKey entry) (logVersion entry) st;
          st2 = (if logType entry \<noteq> DELETE
                 then writeData (logData entry) (dataSize entry) st1
                 else st1\<lparr>pages := (pages st1)(mUpdatePage st1 := (pages st1 (mUpdatePage st1))
                        \<lparr>sizeData := (sizeData (pages st1 (mUpdatePage st1)))
                           (mUpdateIdx st1 := 0)\<rparr>)\<rparr>)
      in st2\<lparr>mFillIdx := mFillIdx st2 + 1, mUpdateIdx := mUpdateIdx st2 + 1\<rparr>)"

subsection \<open>The update iterator\<close>

text \<open>
  Modelled from the spec: \<^verbatim>\<open>UpdateRecordIterator\<close>, which \<^verbatim>\<open>processUpdates\<close> uses and
  whose code is not part of the sources. The spec has it yield the updates of a chain
  in version order and report \<open>lowestVersion\<close>, the smallest version seen. The updates
  a chain yields are a parameter (\<open>updates\<close>, from the head pointer to the list, newest
  first); the iterator is at the first element of what remains, and has seen the
  elements it has been at. The spec gives the base version no role.
\<close>

record 'd UpdateRecordIterator =
  remaining :: "'d UpdateLogEntry list"
  mLowestVersion :: "64 word"

definition seeCurrent :: "'d UpdateRecordIterator \<Rightarrow> 'd UpdateRecordIterator" where
  "seeCurrent it =
     (case remaining it of
        [] \<Rightarrow> it
      | e # _ \<Rightarrow> it\<lparr>mLowestVersion := min (mLowestVersion it) (logVersion e)\<rparr>)"

definition UpdateRecordIterator_init ::
    "(newest_ptr \<Rightarrow> 'd UpdateLogEntry list) \<Rightarrow> newest_ptr \<Rightarrow> 64 word \<Rightarrow>
       'd UpdateRecordIterator" where
  "UpdateRecordIterator_init updates nw baseVersion =
     seeCurrent \<lparr>remaining = updates nw, mLowestVersion = - 1\<rparr>"

definition iter_done :: "'d UpdateRecordIterator \<Rightarrow> bool" where
  "iter_done it = (remaining it = [])"

definition iter_next :: "'d UpdateRecordIterator \<Rightarrow> 'd UpdateRecordIterator" where
  "iter_next it = seeCurrent (it\<lparr>remaining := tl (remaining it)\<rparr>)"

definition iter_value :: "'d UpdateRecordIterator \<Rightarrow> 'd UpdateLogEntry" where
  "iter_value it = hd (remaining it)"

definition lowestVersion :: "'d UpdateRecordIterator \<Rightarrow> 64 word" where
  "lowestVersion it = mLowestVersion it"

lemma remaining_seeCurrent [simp]: "remaining (seeCurrent it) = remaining it"
  by (simp add: seeCurrent_def split: list.splits)

lemma remaining_iter_next [simp]: "remaining (iter_next it) = tl (remaining it)"
  by (simp add: iter_next_def)

subsection \<open>processUpdates\<close>

text \<open>
  The loop of \<^verbatim>\<open>processUpdates\<close>. The result is the returned flag, \<open>lowestVersion\<close> (which
  the code assigns only when it returns true), \<open>wasDelete\<close> and the modifier.
\<close>

function processUpdatesLoop ::
    "ColumnMapContext \<Rightarrow> 'd UpdateRecordIterator \<Rightarrow> bool \<Rightarrow> 'd modifier \<Rightarrow>
       bool \<times> 64 word option \<times> bool \<times> 'd modifier" where
  "processUpdatesLoop ctx updateIter wasDelete st =
     (if iter_done updateIter then (True, Some (lowestVersion updateIter), wasDelete, st)
      else
        let logEntry = iter_value updateIter;
            sz = entryOverhead ctx
        in
        if wasDelete \<and> logVersion logEntry < mMinVersion st then
          (True, Some (lowestVersion updateIter), False,
           st\<lparr>mUpdateIdx := mUpdateIdx st - 1, mFillIdx := mFillIdx st - 1,
              mFillSize := mFillSize st - (sz + fixedSize ctx)\<rparr>)
        else if logType logEntry = DELETE \<and> logVersion logEntry \<le> mMinVersion st then
          (True, Some (lowestVersion updateIter), wasDelete, st)
        else
          let sz1 = (if logType logEntry = DELETE then sz + fixedSize ctx
                     else sz + dataSize logEntry);
              wasDelete1 = (logType logEntry = DELETE);
              st1 = st\<lparr>mFillSize := mFillSize st + sz1\<rparr>
          in
          if mFillSize st1 > MAX_DATA_SIZE ctx then (False, None, wasDelete1, st1)
          else
            let st2 = writeUpdate logEntry st1 in
            if logVersion logEntry \<le> mMinVersion st then
              (True, Some (lowestVersion updateIter), wasDelete1, st2)
            else processUpdatesLoop ctx (iter_next updateIter) wasDelete1 st2)"
  by pat_completeness auto
termination
  by (relation "measure (\<lambda>(ctx, it, wd, st). length (remaining it))")
     (auto simp: iter_done_def)

declare processUpdatesLoop.simps [simp del]

definition processUpdates ::
    "ColumnMapContext \<Rightarrow> (newest_ptr \<Rightarrow> 'd UpdateLogEntry list) \<Rightarrow> newest_ptr \<Rightarrow> 64 word \<Rightarrow>
       bool \<Rightarrow> 'd modifier \<Rightarrow> bool \<times> 64 word option \<times> bool \<times> 'd modifier" where
  "processUpdates ctx updates nw baseVersion wasDelete st =
     processUpdatesLoop ctx (UpdateRecordIterator_init updates nw baseVersion) wasDelete st"

subsection \<open>Clean actions and the flush\<close>

text \<open>
  \<^verbatim>\<open>addCleanAction\<close> (without the copy of the rows' heap, which is part of the byte
  layout), the four places of \<^verbatim>\<open>clean\<close> that enqueue the pending span of main rows
  (\<open>flushPendingMain\<close>), and the two places that enqueue the pending rows of the update
  page (\<open>enqueueUpdates\<close>).
\<close>

definition addCleanAction :: "nat \<Rightarrow> nat \<Rightarrow> nat \<Rightarrow> 'd modifier \<Rightarrow> 'd modifier" where
  "addCleanAction page s e st =
     st\<lparr>mCleanActions := mCleanActions st @ [\<lparr>actionPage = page, startIdx = s, endIdx = e\<rparr>]\<rparr>"

definition flushPendingMain :: "nat \<Rightarrow> nat \<Rightarrow> nat \<Rightarrow> 'd modifier \<Rightarrow> nat \<times> nat \<times> 'd modifier" where
  "flushPendingMain page mainStartIdx mainEndIdx st =
     (if mainStartIdx \<noteq> mainEndIdx then (0, 0, addCleanAction page mainStartIdx mainEndIdx st)
      else (mainStartIdx, mainEndIdx, st))"

definition enqueueUpdates :: "'d modifier \<Rightarrow> 'd modifier" where
  "enqueueUpdates st =
     (if mUpdateStartIdx st \<noteq> mUpdateEndIdx st then
        st\<lparr>mCleanActions := mCleanActions st @
              [\<lparr>actionPage = mUpdatePage st, startIdx = mUpdateStartIdx st,
                endIdx = mUpdateEndIdx st\<rparr>],
           mUpdateStartIdx := mUpdateEndIdx st\<rparr>
      else st)"

lemma sched_storeNewest [simp]: "sched (storeNewest r v st) = sched st"
  by (simp add: storeNewest_def)

lemma sched_foldl_storeNewest [simp]:
  "sched (foldl (\<lambda>s w. storeNewest (fst w) (snd w) s) st ws) = sched st"
  by (induction ws arbitrary: st) simp_all

lemma sched_interfere [simp]: "sched (interfere st) = tl (sched st)"
  by (simp add: interfere_def split: list.splits)

lemma interfere_Nil: "sched st = [] \<Longrightarrow> interfere st = st"
  by (simp add: interfere_def)

lemma loadNewest_storeNewest:
  "loadNewest r (storeNewest r' v st) = (if r = r' then v else loadNewest r st)"
  by (cases r; cases r') (auto simp: loadNewest_def storeNewest_def)

text \<open>
  The publish loop of \<^verbatim>\<open>flushFillPage\<close> for one pointer action:
  \<^verbatim>\<open>while (!action.ptr->compare_exchange_strong(action.expected, desired))
      action.desired->newest.store(action.expected);\<close>
  It ends once the source record's word is the one expected, which it is at the latest
  when the writers' stores are used up.
\<close>

function adjustNewest :: "PointerAction \<Rightarrow> 'd modifier \<Rightarrow> 'd modifier" where
  "adjustNewest action st =
     (case atomicCAS (ptr action) (expected action) (MainPtr (desired action)) st of
        (ok, e, st1) \<Rightarrow>
          if ok then st1
          else adjustNewest (action\<lparr>expected := e\<rparr>) (storeNewest (desired action) e st1))"
  by pat_completeness auto
termination
  apply (relation "measure (\<lambda>(a, st). 2 * length (sched st) +
          (if sched st = [] \<and> loadNewest (ptr a) st = expected a then 0 else 1))")
   apply simp
  apply (case_tac "sched st")
   apply (auto simp: atomicCAS_def compare_exchange_strong_def Let_def interfere_Nil
          loadNewest_storeNewest split: if_splits)
  done

text \<open>
  \<^verbatim>\<open>flushFillPage\<close>. First (\<open>copyCleanActions\<close>) the pending update rows are enqueued,
  the fill page gets its count and joins the page list, and the sizes and the row data
  of every clean action are copied into it in order. Then the pointer actions are
  executed, in the order they were recorded.
\<close>

definition actionRows :: "'d modifier \<Rightarrow> CleanAction \<Rightarrow> (nat \<times> 'd) list" where
  "actionRows st a =
     map (\<lambda>j. (sizeData (pages st (actionPage a)) j, recordData (pages st (actionPage a)) j))
       [startIdx a ..< endIdx a]"

definition copyCleanActions :: "'d modifier \<Rightarrow> 'd modifier" where
  "copyCleanActions st =
     (let st1 = enqueueUpdates st;
          fp = mFillPage st1;
          st2 = st1\<lparr>pages := (pages st1)(fp := (pages st1 fp)\<lparr>count := mFillEndIdx st1\<rparr>),
                    mPageList := mPageList st1 @ [fp]\<rparr>;
          rows = concat (map (actionRows st2) (mCleanActions st2));
          st3 = st2\<lparr>pages := (pages st2)(fp := (pages st2 fp)
                  \<lparr>sizeData := (\<lambda>k. if k < length rows then fst (rows ! k)
                                    else sizeData (pages st2 fp) k),
                   recordData := (\<lambda>k. if k < length rows then snd (rows ! k)
                                      else recordData (pages st2 fp) k)\<rparr>)\<rparr>
      in st3\<lparr>mCleanActions := []\<rparr>)"

definition flushFillPage :: "'d modifier \<Rightarrow> 'd modifier" where
  "flushFillPage st =
     (let st4 = copyCleanActions st;
          st5 = foldl (\<lambda>s a. adjustNewest a s) st4 (mPointerActions st4)
      in st5\<lparr>mPointerActions := []\<rparr>)"

text \<open>\<^verbatim>\<open>flush\<close>: publish the fill page, reset the update page if it was used, start a new fill page.\<close>

definition flush :: "ColumnMapContext \<Rightarrow> ('d::zero) modifier \<Rightarrow> 'd modifier" where
  "flush ctx st =
     (let st1 = flushFillPage st;
          st2 = (if mUpdateIdx st1 \<noteq> 0 then
                   st1\<lparr>pages := (pages st1)
                          (mUpdatePage st1 := zero_page\<lparr>count := fixedSizeCapacity ctx\<rparr>),
                       mUpdateStartIdx := 0, mUpdateEndIdx := 0, mUpdateIdx := 0\<rparr>
                 else st1)
      in case alloc st2 of
           (p, st3) \<Rightarrow> st3\<lparr>mFillPage := p, mFillEndIdx := 0, mFillIdx := 0, mFillSize := 0\<rparr>)"

subsection \<open>needsCleaning\<close>

text \<open>
  \<^verbatim>\<open>needsCleaning\<close>. \<open>scanVersions\<close> is its inner loop over the further versions of a
  key: \<open>None\<close> when it returns true from inside the loop, else the index it stops at.
\<close>

function scanVersions :: "'d ColumnMapMainPage \<Rightarrow> 64 word \<Rightarrow> 64 word \<Rightarrow> nat \<Rightarrow> nat option" where
  "scanVersions p minVersion k i =
     (if i < count p \<and> key (entryData p i) = k then
        (if version (entryData p i) < minVersion then None
         else scanVersions p minVersion k (i + 1))
      else Some i)"
  by pat_completeness auto
termination
  by (relation "measure (\<lambda>(p, m, k, i). count p - i)") auto

declare scanVersions.simps [simp del]

lemma scanVersions_ge: "scanVersions p m k i = Some j \<Longrightarrow> i \<le> j"
proof (induction p m k i rule: scanVersions.induct)
  case (1 p minVersion k i)
  show ?case
  proof (cases "i < count p \<and> key (entryData p i) = k")
    case True
    with "1.prems" have nb: "\<not> version (entryData p i) < minVersion"
      and r: "scanVersions p minVersion k (i + 1) = Some j"
      by (subst (asm) scanVersions.simps, simp split: if_splits)+
    from "1.IH" [OF True nb r] show ?thesis by simp
  next
    case False
    with "1.prems" show ?thesis by (subst (asm) scanVersions.simps) simp
  qed
qed

function needsCleaningFrom :: "'d ColumnMapMainPage \<Rightarrow> 64 word \<Rightarrow> nat \<Rightarrow> bool" where
  "needsCleaningFrom p minVersion i =
     (if i < count p then
        (if newest (entryData p i) \<noteq> NullPtr then True
         else if i + 1 = count p \<or> key (entryData p i) \<noteq> key (entryData p (i + 1)) then False
         else
           (case scanVersions p minVersion (key (entryData p i)) (i + 1) of
              None \<Rightarrow> True
            | Some j \<Rightarrow> needsCleaningFrom p minVersion j))
      else False)"
  by pat_completeness auto
termination
  by (relation "measure (\<lambda>(p, m, i). count p - i)") (auto dest: scanVersions_ge)

declare needsCleaningFrom.simps [simp del]
declare adjustNewest.simps [simp del]

definition needsCleaning :: "nat \<Rightarrow> 'd modifier \<Rightarrow> bool" where
  "needsCleaning page st = needsCleaningFrom (pages st page) (mMinVersion st) 0"


subsection \<open>clean\<close>

text \<open>
  The loops of \<^verbatim>\<open>clean\<close> that skip to the next key, and that skip the main versions not
  below \<open>lowestVersion\<close>. \<open>src\<close> is the source page as \<^verbatim>\<open>clean\<close> finds it: its keys,
  versions and sizes are not written while \<^verbatim>\<open>clean\<close> runs; its \<^verbatim>\<open>newest\<close> words are read
  from memory.
\<close>

function skipKey :: "'d ColumnMapMainPage \<Rightarrow> 64 word \<Rightarrow> nat \<Rightarrow> nat" where
  "skipKey src k i =
     (if i < count src \<and> key (entryData src i) = k then skipKey src k (i + 1) else i)"
  by pat_completeness auto
termination
  by (relation "measure (\<lambda>(src, k, i). count src - i)") auto

declare skipKey.simps [simp del]

function skipAbove :: "'d ColumnMapMainPage \<Rightarrow> 64 word \<Rightarrow> 64 word \<Rightarrow> nat \<Rightarrow> nat" where
  "skipAbove src k lowest i =
     (if i < count src \<and> key (entryData src i) = k \<and> version (entryData src i) \<ge> lowest
      then skipAbove src k lowest (i + 1) else i)"
  by pat_completeness auto
termination
  by (relation "measure (\<lambda>(src, k, l, i). count src - i)") auto

declare skipAbove.simps [simp del]

text \<open>
  The loop that copies main versions into the fill page. The result is whether the fill
  page overflowed, then \<open>i\<close>, \<open>copyEndIdx\<close>, \<open>wasDelete\<close> and the modifier.
\<close>

function copyLoop ::
    "ColumnMapContext \<Rightarrow> 'd ColumnMapMainPage \<Rightarrow> nat \<Rightarrow> nat \<Rightarrow> nat \<Rightarrow> nat \<Rightarrow> bool \<Rightarrow>
       'd modifier \<Rightarrow> bool \<times> nat \<times> nat \<times> bool \<times> 'd modifier" where
  "copyLoop ctx src baseIdx copyStartIdx i copyEndIdx wasDelete st =
     (if i < count src \<and> key (entryData src i) = key (entryData src baseIdx) then
        let sz = entryOverhead ctx in
        if wasDelete \<and> version (entryData src i) < mMinVersion st then
          let st1 = st\<lparr>mFillIdx := mFillIdx st - 1,
                        mFillSize := mFillSize st - (sz + fixedSize ctx)\<rparr>
          in if copyStartIdx = copyEndIdx
             then (False, i, copyEndIdx, False, st1\<lparr>mUpdateIdx := mUpdateIdx st1 - 1\<rparr>)
             else (False, i, copyEndIdx - 1, False, st1)
        else if sizeData src i = 0 \<and> version (entryData src i) \<le> mMinVersion st then
          (False, i, copyEndIdx, wasDelete, st)
        else
          let sz1 = (if sizeData src i = 0 then sz + fixedSize ctx else sz + sizeData src i);
              wasDelete1 = (sizeData src i = 0);
              st1 = st\<lparr>mFillSize := mFillSize st + sz1\<rparr>
          in
          if mFillSize st1 > MAX_DATA_SIZE ctx then (True, i, copyEndIdx, wasDelete1, st1)
          else
            let st2 = writeFillEntry (key (entryData src baseIdx)) (version (entryData src i)) st1;
                st3 = st2\<lparr>mFillIdx := mFillIdx st2 + 1\<rparr>
            in
            if version (entryData src i) \<le> mMinVersion st
            then (False, i, copyEndIdx + 1, wasDelete1, st3)
            else copyLoop ctx src baseIdx copyStartIdx (i + 1) (copyEndIdx + 1) wasDelete1 st3
      else (False, i, copyEndIdx, wasDelete, st))"
  by pat_completeness auto
termination
  by (relation "measure (\<lambda>(ctx, src, b, cs, i, ce, wd, st). count src - i)") auto

declare copyLoop.simps [simp del]

text \<open>
  The two ways a record is published: invalidated and removed from the hash table
  (the result says whether the exchange succeeded), or a pointer action enqueued and the
  hash table pointed at the new entry.
\<close>

definition invalidateRecord ::
    "'d ColumnMapMainPage \<Rightarrow> nat \<Rightarrow> nat \<Rightarrow> newest_ptr \<Rightarrow> 'd modifier \<Rightarrow> bool \<times> 'd modifier" where
  "invalidateRecord src page baseIdx nw st =
     (case atomicCAS (page, baseIdx) nw InvalidTag st of
        (ok, e, st1) \<Rightarrow>
          if \<not> ok then (False, st1)
          else (True, st1\<lparr>mainTable := (mainTable st1)(key (entryData src baseIdx) := None)\<rparr>))"

definition enqueuePointerAction ::
    "'d ColumnMapMainPage \<Rightarrow> nat \<Rightarrow> nat \<Rightarrow> newest_ptr \<Rightarrow> 'd modifier \<Rightarrow> 'd modifier" where
  "enqueuePointerAction src page baseIdx nw st =
     (let fillEntry = (mFillPage st, mFillEndIdx st) in
      st\<lparr>mPointerActions := mPointerActions st @
            [\<lparr>ptr = (page, baseIdx), expected = nw, desired = fillEntry\<rparr>],
         mainTable := (mainTable st)(key (entryData src baseIdx) \<mapsto> fillEntry)\<rparr>)"

text \<open>The end of an iteration of \<^verbatim>\<open>clean\<close>'s loop, after the copy loop.\<close>

definition publishCopy ::
    "'d ColumnMapMainPage \<Rightarrow> nat \<Rightarrow> nat \<Rightarrow> newest_ptr \<Rightarrow> nat \<Rightarrow> nat \<Rightarrow> nat \<Rightarrow> nat \<Rightarrow> nat \<Rightarrow>
       'd modifier \<Rightarrow> nat \<times> nat \<times> nat \<times> 'd modifier" where
  "publishCopy src page baseIdx nw copyStartIdx copyEndIdx i mainStartIdx mainEndIdx st =
     (if mFillIdx st = mFillEndIdx st then
        (case invalidateRecord src page baseIdx nw st of
           (ok, st1) \<Rightarrow>
             if \<not> ok then (baseIdx, mainStartIdx, mainEndIdx, st1)
             else (skipKey src (key (entryData src baseIdx)) i, mainStartIdx, mainEndIdx, st1))
      else
        let st1 = enqueuePointerAction src page baseIdx nw st in
        (case
           (if mainEndIdx = copyStartIdx \<and> mUpdateIdx st1 = mUpdateStartIdx st1
            then (mainStartIdx, copyEndIdx, st1)
            else
              (case flushPendingMain page mainStartIdx mainEndIdx st1 of
                 (ms, me, st2) \<Rightarrow>
                   let st3 = st2\<lparr>mUpdateEndIdx := mUpdateIdx st2\<rparr> in
                   if copyStartIdx \<noteq> copyEndIdx
                   then (copyStartIdx, copyEndIdx, enqueueUpdates st3)
                   else (ms, me, st3)))
         of (ms, me, st4) \<Rightarrow>
           (skipKey src (key (entryData src baseIdx)) i, ms, me,
            st4\<lparr>mFillEndIdx := mFillIdx st4\<rparr>)))"

text \<open>The copy loop with what follows it: flush and restart on overflow, else publish.\<close>

definition copyPhase ::
    "ColumnMapContext \<Rightarrow> 'd ColumnMapMainPage \<Rightarrow> nat \<Rightarrow> nat \<Rightarrow> newest_ptr \<Rightarrow> nat \<Rightarrow> bool \<Rightarrow> nat \<Rightarrow>
       nat \<Rightarrow> ('d::zero) modifier \<Rightarrow> nat \<times> nat \<times> nat \<times> 'd modifier" where
  "copyPhase ctx src page baseIdx nw i wasDelete mainStartIdx mainEndIdx st =
     (case copyLoop ctx src baseIdx i i i wasDelete st of
        (overflow, i1, copyEndIdx, wasDelete1, st1) \<Rightarrow>
          if overflow then
            (case flushPendingMain page mainStartIdx mainEndIdx st1 of
               (ms, me, st2) \<Rightarrow> (baseIdx, ms, me, flush ctx st2))
          else publishCopy src page baseIdx nw i copyEndIdx i1 mainStartIdx mainEndIdx st1)"

text \<open>
  One iteration of the loop \<^verbatim>\<open>while (i < page->count)\<close>, from the label \<^verbatim>\<open>START\<close>: the
  result is \<open>i\<close>, \<open>mainStartIdx\<close>, \<open>mainEndIdx\<close> and the modifier at the next test of the
  loop condition. Every \<^verbatim>\<open>continue\<close>, and the \<^verbatim>\<open>goto START\<close> (with \<open>i = baseIdx\<close>, which
  is below the count), ends the iteration. \<open>clean_record\<close> is the iteration after
  \<^verbatim>\<open>auto newest = entries[baseIdx].newest.load()\<close>, with \<open>nw\<close> the word loaded.
\<close>

definition clean_record ::
    "ColumnMapContext \<Rightarrow> (newest_ptr \<Rightarrow> 'd UpdateLogEntry list) \<Rightarrow> 'd ColumnMapMainPage \<Rightarrow> nat \<Rightarrow>
       nat \<Rightarrow> newest_ptr \<Rightarrow> nat \<Rightarrow> nat \<Rightarrow> ('d::zero) modifier \<Rightarrow> nat \<times> nat \<times> nat \<times> 'd modifier" where
  "clean_record ctx updates src page i nw mainStartIdx mainEndIdx st0 =
     (let baseIdx = i in
      if nw \<noteq> NullPtr then
        (case flushPendingMain page mainStartIdx mainEndIdx st0 of
           (ms, me, st1) \<Rightarrow>
             (case processUpdates ctx updates nw (version (entryData src baseIdx)) False st1 of
                (ok, lowest, wasDelete, st2) \<Rightarrow>
                  if \<not> ok then
                    (case flushPendingMain page ms me st2 of
                       (ms', me', st3) \<Rightarrow> (baseIdx, ms', me', flush ctx st3))
                  else if the lowest \<le> mMinVersion st2 then
                    (if mUpdateIdx st2 = mUpdateEndIdx st2 then
                       (case invalidateRecord src page baseIdx nw st2 of
                          (ok', st3) \<Rightarrow>
                            if \<not> ok' then (baseIdx, ms, me, st3)
                            else (skipKey src (key (entryData src baseIdx)) (i + 1),
                                  ms, me, st3))
                     else
                       let st3 = enqueuePointerAction src page baseIdx nw st2 in
                       (skipKey src (key (entryData src baseIdx)) (i + 1), ms, me,
                        st3\<lparr>mUpdateEndIdx := mUpdateIdx st3, mFillEndIdx := mFillIdx st3\<rparr>))
                  else
                    copyPhase ctx src page baseIdx nw
                      (skipAbove src (key (entryData src baseIdx)) (the lowest) i)
                      wasDelete ms me st2))
      else copyPhase ctx src page baseIdx nw i False mainStartIdx mainEndIdx st0)"

definition clean_step ::
    "ColumnMapContext \<Rightarrow> (newest_ptr \<Rightarrow> 'd UpdateLogEntry list) \<Rightarrow> 'd ColumnMapMainPage \<Rightarrow> nat \<Rightarrow>
       nat \<Rightarrow> nat \<Rightarrow> nat \<Rightarrow> ('d::zero) modifier \<Rightarrow> nat \<times> nat \<times> nat \<times> 'd modifier" where
  "clean_step ctx updates src page i mainStartIdx mainEndIdx st =
     (case atomicLoad (page, i) st of
        (nw, st0) \<Rightarrow> clean_record ctx updates src page i nw mainStartIdx mainEndIdx st0)"

text \<open>
  The loop itself, for at most the given number of iterations: \<open>None\<close> when that number
  does not suffice.
\<close>

fun clean_loop ::
    "nat \<Rightarrow> ColumnMapContext \<Rightarrow> (newest_ptr \<Rightarrow> 'd UpdateLogEntry list) \<Rightarrow> 'd ColumnMapMainPage \<Rightarrow>
       nat \<Rightarrow> nat \<Rightarrow> nat \<Rightarrow> nat \<Rightarrow> ('d::zero) modifier \<Rightarrow> (nat \<times> nat \<times> 'd modifier) option" where
  "clean_loop 0 ctx updates src page i mainStartIdx mainEndIdx st =
     (if i < count src then None else Some (mainStartIdx, mainEndIdx, st))"
| "clean_loop (Suc n) ctx updates src page i mainStartIdx mainEndIdx st =
     (if i < count src then
        (case clean_step ctx updates src page i mainStartIdx mainEndIdx st of
           (i', ms, me, st') \<Rightarrow> clean_loop n ctx updates src page i' ms me st')
      else Some (mainStartIdx, mainEndIdx, st))"

text \<open>
  The end of \<^verbatim>\<open>clean\<close>, after the loop: the last pending span of main rows is enqueued
  and \<^verbatim>\<open>clean\<close> returns true.
\<close>

definition clean_end ::
    "nat \<Rightarrow> (nat \<times> nat \<times> 'd modifier) option \<Rightarrow> (bool \<times> 'd modifier) option" where
  "clean_end page r =
     (case r of
        None \<Rightarrow> None
      | Some (mainStartIdx, mainEndIdx, st1) \<Rightarrow>
          Some (True, if mainStartIdx \<noteq> mainEndIdx
                      then addCleanAction page mainStartIdx mainEndIdx st1 else st1))"

definition clean ::
    "nat \<Rightarrow> ColumnMapContext \<Rightarrow> (newest_ptr \<Rightarrow> 'd UpdateLogEntry list) \<Rightarrow> nat \<Rightarrow>
       ('d::zero) modifier \<Rightarrow> (bool \<times> 'd modifier) option" where
  "clean fuel ctx updates page st =
     (if \<not> needsCleaning page st then Some (False, st\<lparr>mPageList := mPageList st @ [page]\<rparr>)
      else clean_end page (clean_loop fuel ctx updates (pages st page) page 0 0 0 st))"

text \<open>\<^verbatim>\<open>done\<close>: the last fill page is published if it holds a record.\<close>

definition done_modifier :: "'d modifier \<Rightarrow> nat list \<times> 'd modifier" where
  "done_modifier st =
     (let st1 = (if mFillEndIdx st \<noteq> 0 then flushFillPage st else st)
      in (mPageList st1, st1))"

subsection \<open>What processUpdates emits\<close>

text \<open>
  The bytes \<^verbatim>\<open>processUpdates\<close> accounts for an update entry, the modifier after an entry
  has been accounted for and written (\<open>emitUpdate\<close>), after a list of entries has
  (\<open>emitUpdates\<close>), and whether the fill size stays within \<^verbatim>\<open>MAX_DATA_SIZE\<close> while a
  list of entries is written starting from a given fill size (\<open>updatesFit\<close>).
\<close>

definition updateSize :: "ColumnMapContext \<Rightarrow> 'd UpdateLogEntry \<Rightarrow> nat" where
  "updateSize ctx e =
     (if logType e = DELETE then entryOverhead ctx + fixedSize ctx
      else entryOverhead ctx + dataSize e)"

definition emitUpdate :: "ColumnMapContext \<Rightarrow> 'd UpdateLogEntry \<Rightarrow> 'd modifier \<Rightarrow> 'd modifier" where
  "emitUpdate ctx e st = writeUpdate e (st\<lparr>mFillSize := mFillSize st + updateSize ctx e\<rparr>)"

fun emitUpdates :: "ColumnMapContext \<Rightarrow> 'd UpdateLogEntry list \<Rightarrow> 'd modifier \<Rightarrow> 'd modifier" where
  "emitUpdates ctx [] st = st"
| "emitUpdates ctx (e # es) st = emitUpdates ctx es (emitUpdate ctx e st)"

fun updatesFit :: "ColumnMapContext \<Rightarrow> 'd UpdateLogEntry list \<Rightarrow> nat \<Rightarrow> bool" where
  "updatesFit ctx [] n = True"
| "updatesFit ctx (e # es) n =
     (n + updateSize ctx e \<le> MAX_DATA_SIZE ctx \<and> updatesFit ctx es (n + updateSize ctx e))"

text \<open>
  The smallest version among the entries the iterator has seen, the iterator over a
  chain \<open>L\<close> after \<open>n\<close> steps, and whether the entry written last was a delete.
\<close>

definition seen_lowest :: "'d UpdateLogEntry list \<Rightarrow> 64 word" where
  "seen_lowest xs = foldl (\<lambda>m e. min m (logVersion e)) (- 1) xs"

definition iter_at :: "'d UpdateLogEntry list \<Rightarrow> nat \<Rightarrow> 'd UpdateRecordIterator" where
  "iter_at L n = \<lparr>remaining = drop n L, mLowestVersion = seen_lowest (take (Suc n) L)\<rparr>"

definition endsWithDelete :: "bool \<Rightarrow> 'd UpdateLogEntry list \<Rightarrow> bool" where
  "endsWithDelete wasDelete es = (if es = [] then wasDelete else logType (last es) = DELETE)"

lemma init_iter_at: "UpdateRecordIterator_init updates nw bv = iter_at (updates nw) 0"
  by (cases "updates nw")
     (simp_all add: UpdateRecordIterator_init_def iter_at_def seeCurrent_def seen_lowest_def)

lemma seen_lowest_snoc: "seen_lowest (xs @ [e]) = min (seen_lowest xs) (logVersion e)"
  by (simp add: seen_lowest_def)

lemma iter_next_iter_at: "n < length L \<Longrightarrow> iter_next (iter_at L n) = iter_at L (Suc n)"
proof (cases "Suc n < length L")
  case True
  assume "n < length L"
  from True have d: "drop (Suc n) L = L ! Suc n # drop (Suc (Suc n)) L"
    by (simp add: Cons_nth_drop_Suc)
  from True have t: "take (Suc (Suc n)) L = take (Suc n) L @ [L ! Suc n]"
    by (simp add: take_Suc_conv_app_nth)
  show ?thesis
    by (simp add: iter_next_def iter_at_def seeCurrent_def drop_Suc [symmetric] tl_drop d t seen_lowest_snoc del: take_Suc drop_Suc)
next
  case False
  assume "n < length L"
  with False have "Suc n = length L" by simp
  then show ?thesis
    by (simp add: iter_next_def iter_at_def seeCurrent_def tl_drop del: take_Suc)
qed

lemma mMinVersion_writeUpdate [simp]: "mMinVersion (writeUpdate e st) = mMinVersion st"
  by (simp add: writeUpdate_def writeFillEntry_def writeData_def Let_def)

lemma mFillSize_writeUpdate [simp]: "mFillSize (writeUpdate e st) = mFillSize st"
  by (simp add: writeUpdate_def writeFillEntry_def writeData_def Let_def)

lemma mMinVersion_emitUpdate [simp]: "mMinVersion (emitUpdate ctx e st) = mMinVersion st"
  by (simp add: emitUpdate_def)

lemma mFillSize_emitUpdate [simp]:
  "mFillSize (emitUpdate ctx e st) = mFillSize st + updateSize ctx e"
  by (simp add: emitUpdate_def)

lemma processUpdatesLoop_prefix:
  "drop n L = pre @ rest \<Longrightarrow> \<forall>u\<in>set pre. mMinVersion st < logVersion u \<Longrightarrow>
   updatesFit ctx pre (mFillSize st) \<Longrightarrow>
   processUpdatesLoop ctx (iter_at L n) wd st =
     processUpdatesLoop ctx (iter_at L (n + length pre)) (endsWithDelete wd pre)
       (emitUpdates ctx pre st)"
proof (induction pre arbitrary: n wd st)
  case Nil
  then show ?case by (simp add: endsWithDelete_def)
next
  case (Cons e pre)
  from Cons.prems(1) have n: "n < length L" by (cases "n < length L") auto
  have "drop (Suc n) L = tl (drop n L)" by (simp add: drop_Suc tl_drop)
  with Cons.prems(1) have d: "drop (Suc n) L = pre @ rest" by simp
  from Cons.prems(1) have rem: "remaining (iter_at L n) = e # pre @ rest"
    by (simp add: iter_at_def)
  from Cons.prems(2) have v: "mMinVersion st < logVersion e" by simp
  from Cons.prems(3) have f: "mFillSize st + updateSize ctx e \<le> MAX_DATA_SIZE ctx"
    and f': "updatesFit ctx pre (mFillSize (emitUpdate ctx e st))" by simp_all
  from v have nv: "\<not> logVersion e < mMinVersion st" "\<not> logVersion e \<le> mMinVersion st"
    by auto
  from f have nf: "\<not> MAX_DATA_SIZE ctx < mFillSize st + updateSize ctx e" by simp
  have step: "processUpdatesLoop ctx (iter_at L n) wd st =
      processUpdatesLoop ctx (iter_at L (Suc n)) (logType e = DELETE) (emitUpdate ctx e st)"
    apply (subst processUpdatesLoop.simps)
    using nv nf rem n
    apply (simp add: iter_done_def iter_value_def Let_def iter_next_iter_at emitUpdate_def
        updateSize_def)
    done
  have ih: "processUpdatesLoop ctx (iter_at L (Suc n)) (logType e = DELETE) (emitUpdate ctx e st) =
      processUpdatesLoop ctx (iter_at L (Suc n + length pre))
        (endsWithDelete (logType e = DELETE) pre) (emitUpdates ctx pre (emitUpdate ctx e st))"
    using Cons.prems(2) f' by (intro Cons.IH [OF d]) simp_all
  have e1: "endsWithDelete wd (e # pre) = endsWithDelete (logType e = DELETE) pre"
    by (simp add: endsWithDelete_def)
  have e2: "emitUpdates ctx (e # pre) st = emitUpdates ctx pre (emitUpdate ctx e st)"
    by simp
  have e3: "n + length (e # pre) = Suc n + length pre" by simp
  show ?case unfolding e1 e2 e3 by (rule trans [OF step ih])
qed


lemma mFillIdx_emitUpdate [simp]: "mFillIdx (emitUpdate ctx e st) = mFillIdx st + 1"
  by (simp add: emitUpdate_def writeUpdate_def writeFillEntry_def writeData_def Let_def)

lemma mUpdateIdx_emitUpdate [simp]: "mUpdateIdx (emitUpdate ctx e st) = mUpdateIdx st + 1"
  by (simp add: emitUpdate_def writeUpdate_def writeFillEntry_def writeData_def Let_def)

lemma mFillPage_emitUpdate [simp]: "mFillPage (emitUpdate ctx e st) = mFillPage st"
  by (simp add: emitUpdate_def writeUpdate_def writeFillEntry_def writeData_def Let_def)

lemma entryData_emitUpdate:
  "entryData (pages (emitUpdate ctx e st) (mFillPage st)) i =
     (if i = mFillIdx st then \<lparr>key = logKey e, version = logVersion e, newest = NullPtr\<rparr>
      else entryData (pages st (mFillPage st)) i)"
  by (simp add: emitUpdate_def writeUpdate_def writeFillEntry_def writeData_def Let_def)

lemma emitUpdates_counters:
  "mFillIdx (emitUpdates ctx es st) = mFillIdx st + length es \<and>
   mUpdateIdx (emitUpdates ctx es st) = mUpdateIdx st + length es \<and>
   mFillPage (emitUpdates ctx es st) = mFillPage st \<and>
   mMinVersion (emitUpdates ctx es st) = mMinVersion st \<and>
   mFillSize (emitUpdates ctx es st) = mFillSize st + sum_list (map (updateSize ctx) es)"
  by (induction es arbitrary: st) simp_all

lemma emitUpdates_entries_below:
  "i < mFillIdx st \<Longrightarrow>
   entryData (pages (emitUpdates ctx es st) (mFillPage st)) i = entryData (pages st (mFillPage st)) i"
proof (induction es arbitrary: st)
  case Nil
  then show ?case by simp
next
  case (Cons e es)
  from Cons.prems have "i < mFillIdx (emitUpdate ctx e st)" by simp
  from Cons.IH [OF this] Cons.prems show ?case by (simp add: entryData_emitUpdate)
qed

lemma emitUpdates_entries:
  "j < length es \<Longrightarrow>
   entryData (pages (emitUpdates ctx es st) (mFillPage st)) (mFillIdx st + j) =
     \<lparr>key = logKey (es ! j), version = logVersion (es ! j), newest = NullPtr\<rparr>"
proof (induction es arbitrary: st j)
  case Nil
  then show ?case by simp
next
  case (Cons e es)
  show ?case
  proof (cases j)
    case 0
    have "mFillIdx st < mFillIdx (emitUpdate ctx e st)" by simp
    from emitUpdates_entries_below [OF this, of ctx es] 0 show ?thesis
      by (simp add: entryData_emitUpdate)
  next
    case (Suc j')
    with Cons.prems have "j' < length es" by simp
    from Cons.IH [OF this, of "emitUpdate ctx e st"] Suc show ?thesis by simp
  qed
qed

lemma copyLoop_cancel:
  assumes "i < count src" and "key (entryData src i) = key (entryData src baseIdx)"
    and "version (entryData src i) < mMinVersion st"
  shows "copyLoop ctx src baseIdx i i i True st =
           (False, i, i, False,
            st\<lparr>mFillIdx := mFillIdx st - 1,
               mFillSize := mFillSize st - (entryOverhead ctx + fixedSize ctx),
               mUpdateIdx := mUpdateIdx st - 1\<rparr>)"
  using assms by (subst copyLoop.simps) (simp add: Let_def)

text \<open>
  C3. Let the update chain of a record be \<open>pre @ e # post\<close>, where the entries of \<open>pre\<close>
  have versions above \<open>minVersion\<close> and fit into the fill page, so that \<^verbatim>\<open>processUpdates\<close>
  writes all of them (to the rows \<open>mFillIdx st + j\<close> of the fill page, with both counters
  advanced by the length of \<open>pre\<close>).
  If \<open>e\<close> is a delete with a version at or below \<open>minVersion\<close>, the loop ends there
  with exactly \<open>pre\<close> written: neither \<open>e\<close> nor an entry of \<open>post\<close> is emitted.
  If the entry written last was a delete and the version of \<open>e\<close> is below \<open>minVersion\<close>,
  the loop ends with \<open>e\<close> not written and that delete dropped: the fill and update
  counters are one less and the delete's bytes are subtracted. In both cases
  \<^verbatim>\<open>processUpdates\<close> returns true. The copy loop of \<^verbatim>\<open>clean\<close> drops the pair in the same
  way when the delete came from the update chain and the first main version left is
  below \<open>minVersion\<close>.
\<close>

theorem processUpdates_delete_below_and_cancel:
  assumes chain: "updates nw = pre @ e # post"
    and above: "\<forall>u\<in>set pre. mMinVersion st < logVersion u"
    and fit: "updatesFit ctx pre (mFillSize st)"
  shows "(logType e = DELETE \<and> logVersion e \<le> mMinVersion st \<and>
            \<not> (endsWithDelete wd pre \<and> logVersion e < mMinVersion st) \<longrightarrow>
          processUpdates ctx updates nw bv wd st =
            (True, Some (seen_lowest (pre @ [e])), endsWithDelete wd pre, emitUpdates ctx pre st)) \<and>
         (endsWithDelete wd pre \<and> logVersion e < mMinVersion st \<longrightarrow>
          processUpdates ctx updates nw bv wd st =
            (True, Some (seen_lowest (pre @ [e])), False,
             (emitUpdates ctx pre st)
               \<lparr>mUpdateIdx := mUpdateIdx st + length pre - 1,
                mFillIdx := mFillIdx st + length pre - 1,
                mFillSize := mFillSize st + sum_list (map (updateSize ctx) pre)
                               - (entryOverhead ctx + fixedSize ctx)\<rparr>)) \<and>
         mFillIdx (emitUpdates ctx pre st) = mFillIdx st + length pre \<and>
         mUpdateIdx (emitUpdates ctx pre st) = mUpdateIdx st + length pre \<and>
         (\<forall>j<length pre.
            entryData (pages (emitUpdates ctx pre st) (mFillPage st)) (mFillIdx st + j) =
              \<lparr>key = logKey (pre ! j), version = logVersion (pre ! j), newest = NullPtr\<rparr>) \<and>
         (i < count src \<and> key (entryData src i) = key (entryData src baseIdx) \<and>
          version (entryData src i) < mMinVersion st' \<longrightarrow>
          copyLoop ctx src baseIdx i i i True st' =
            (False, i, i, False,
             st'\<lparr>mFillIdx := mFillIdx st' - 1,
                 mFillSize := mFillSize st' - (entryOverhead ctx + fixedSize ctx),
                 mUpdateIdx := mUpdateIdx st' - 1\<rparr>))"
proof -
  let ?L = "updates nw"
  let ?st = "emitUpdates ctx pre st"
  let ?it = "iter_at ?L (length pre)"
  from chain have d: "drop 0 ?L = pre @ e # post" by simp
  have run: "processUpdates ctx updates nw bv wd st =
      processUpdatesLoop ctx ?it (endsWithDelete wd pre) ?st"
    using processUpdatesLoop_prefix [OF d above fit, of wd]
    by (simp add: processUpdates_def init_iter_at)
  from chain have rem: "remaining ?it = e # post" by (simp add: iter_at_def)
  from chain have low: "lowestVersion ?it = seen_lowest (pre @ [e])"
    by (simp add: iter_at_def lowestVersion_def)
  have cnt: "mMinVersion ?st = mMinVersion st" "mUpdateIdx ?st = mUpdateIdx st + length pre"
    "mFillIdx ?st = mFillIdx st + length pre"
    "mFillSize ?st = mFillSize st + sum_list (map (updateSize ctx) pre)"
    by (simp_all add: emitUpdates_counters)
  have a: "logType e = DELETE \<and> logVersion e \<le> mMinVersion st \<and>
            \<not> (endsWithDelete wd pre \<and> logVersion e < mMinVersion st) \<longrightarrow>
          processUpdatesLoop ctx ?it (endsWithDelete wd pre) ?st =
            (True, Some (seen_lowest (pre @ [e])), endsWithDelete wd pre, ?st)"
    by (subst processUpdatesLoop.simps)
       (simp add: rem low cnt iter_done_def iter_value_def Let_def)
  have b: "endsWithDelete wd pre \<and> logVersion e < mMinVersion st \<longrightarrow>
          processUpdatesLoop ctx ?it (endsWithDelete wd pre) ?st =
            (True, Some (seen_lowest (pre @ [e])), False,
             ?st\<lparr>mUpdateIdx := mUpdateIdx st + length pre - 1,
                mFillIdx := mFillIdx st + length pre - 1,
                mFillSize := mFillSize st + sum_list (map (updateSize ctx) pre)
                               - (entryOverhead ctx + fixedSize ctx)\<rparr>)"
    by (subst processUpdatesLoop.simps)
       (simp add: rem low cnt iter_done_def iter_value_def Let_def)
  have c: "\<forall>j<length pre.
            entryData (pages ?st (mFillPage st)) (mFillIdx st + j) =
              \<lparr>key = logKey (pre ! j), version = logVersion (pre ! j), newest = NullPtr\<rparr>"
    by (simp add: emitUpdates_entries)
  have d: "i < count src \<and> key (entryData src i) = key (entryData src baseIdx) \<and>
          version (entryData src i) < mMinVersion st' \<longrightarrow>
          copyLoop ctx src baseIdx i i i True st' =
            (False, i, i, False,
             st'\<lparr>mFillIdx := mFillIdx st' - 1,
                 mFillSize := mFillSize st' - (entryOverhead ctx + fixedSize ctx),
                 mUpdateIdx := mUpdateIdx st' - 1\<rparr>)"
    by (simp add: copyLoop_cancel)
  show ?thesis
    unfolding run
    by (intro conjI a b c d cnt(2) cnt(3))
qed


text \<open>
  An example: entries cost 8 bytes plus their data (a delete 8 + 4), a page holds 150;
  the chain is data at version 15, a delete at 12, data at 3 and at 2, and the
  low-water mark is 6. The entry at 15 stays; the delete at 12 is written and dropped
  again at the entry of version 3.
\<close>

definition example_ctx :: ColumnMapContext where
  "example_ctx = \<lparr>entryOverhead = 8, fixedSize = 4, fixedSizeCapacity = 100, MAX_DATA_SIZE = 150\<rparr>"

definition example_chain :: "nat UpdateLogEntry list" where
  "example_chain =
     [\<lparr>logType = DATA, logKey = 2, logVersion = 15, dataSize = 30, logData = 215\<rparr>,
      \<lparr>logType = DELETE, logKey = 2, logVersion = 12, dataSize = 0, logData = 0\<rparr>,
      \<lparr>logType = DATA, logKey = 2, logVersion = 3, dataSize = 30, logData = 203\<rparr>,
      \<lparr>logType = DATA, logKey = 2, logVersion = 2, dataSize = 30, logData = 202\<rparr>]"

definition example_updates :: "newest_ptr \<Rightarrow> nat UpdateLogEntry list" where
  "example_updates p = (if p = UpdatePtr 7 then example_chain else [])"

definition example_modifier :: "nat modifier" where
  "example_modifier = ColumnMapPageModifier_init example_ctx (\<lambda>_. zero_page) 1 Map.empty [] 6"

theorem processUpdates_delete_below_and_cancel_witness:
  "(case processUpdates example_ctx example_updates (UpdatePtr 7) 9 False example_modifier of
      (ok, lowest, wasDelete, st) \<Rightarrow>
        ok \<and> lowest = Some 3 \<and> \<not> wasDelete \<and> mFillIdx st = 1 \<and> mUpdateIdx st = 1 \<and>
        mFillSize st = 38 \<and>
        entryData (pages st (mFillPage st)) 0 = \<lparr>key = 2, version = 15, newest = NullPtr\<rparr>)"
proof -
  let ?pre = "[\<lparr>logType = DATA, logKey = 2, logVersion = 15, dataSize = 30, logData = 215::nat\<rparr>,
      \<lparr>logType = DELETE, logKey = 2, logVersion = 12, dataSize = 0, logData = 0\<rparr>]"
  let ?e = "\<lparr>logType = DATA, logKey = 2, logVersion = 3, dataSize = 30, logData = 203::nat\<rparr>"
  let ?post = "[\<lparr>logType = DATA, logKey = 2, logVersion = 2, dataSize = 30, logData = 202::nat\<rparr>]"
  have chain: "example_updates (UpdatePtr 7) = ?pre @ ?e # ?post"
    by (simp add: example_updates_def example_chain_def)
  have above: "\<forall>u\<in>set ?pre. mMinVersion example_modifier < logVersion u"
    by (simp add: example_modifier_def ColumnMapPageModifier_init_def)
  have fit: "updatesFit example_ctx ?pre (mFillSize example_modifier)"
    by (simp add: example_modifier_def ColumnMapPageModifier_init_def example_ctx_def
        updateSize_def)
  have c: "endsWithDelete False ?pre \<and> logVersion ?e < mMinVersion example_modifier"
    by (simp add: endsWithDelete_def example_modifier_def ColumnMapPageModifier_init_def)
  have l: "seen_lowest (?pre @ [?e]) = 3"
    by (simp add: seen_lowest_def)
  have z: "mFillIdx example_modifier = 0" "mUpdateIdx example_modifier = 0"
    "mFillSize example_modifier = 0"
    by (simp_all add: example_modifier_def ColumnMapPageModifier_init_def)
  note t = processUpdates_delete_below_and_cancel
         [where updates = example_updates and nw = "UpdatePtr 7" and wd = False and bv = 9,
          OF chain above fit]
  from t [THEN conjunct2, THEN conjunct1] c
  have r: "processUpdates example_ctx example_updates (UpdatePtr 7) 9 False example_modifier =
      (True, Some (seen_lowest (?pre @ [?e])), False,
       (emitUpdates example_ctx ?pre example_modifier)
         \<lparr>mUpdateIdx := mUpdateIdx example_modifier + length ?pre - 1,
          mFillIdx := mFillIdx example_modifier + length ?pre - 1,
          mFillSize := mFillSize example_modifier + sum_list (map (updateSize example_ctx) ?pre)
                         - (entryOverhead example_ctx + fixedSize example_ctx)\<rparr>)"
    by blast
  from t [THEN conjunct2, THEN conjunct2, THEN conjunct2, THEN conjunct2, THEN conjunct1]
  have e0: "entryData (pages (emitUpdates example_ctx ?pre example_modifier)
               (mFillPage example_modifier)) (mFillIdx example_modifier + 0) =
            \<lparr>key = 2, version = 15, newest = NullPtr\<rparr>"
    by (drule_tac x = 0 in spec) simp
  from r e0 l z show ?thesis
    by (simp add: updateSize_def example_ctx_def emitUpdates_counters)
qed

subsection \<open>The publish loop carries the delta chain forward\<close>

text \<open>
  The writers' stores reach a word in batches, one before each exchange the loop
  attempts; \<open>(interfere ^^ n) st\<close> is the memory after \<open>n\<close> batches.
\<close>

lemma funpow_interfere_sched: "sched ((interfere ^^ n) st) = drop n (sched st)"
  by (induction n arbitrary: st) (simp_all add: funpow_swap1 drop_Suc)

lemma loadNewest_foldl_agree:
  "loadNewest r s1 = loadNewest r s2 \<Longrightarrow>
   loadNewest r (foldl (\<lambda>s w. storeNewest (fst w) (snd w) s) s1 ws) =
   loadNewest r (foldl (\<lambda>s w. storeNewest (fst w) (snd w) s) s2 ws)"
  by (induction ws arbitrary: s1 s2) (simp_all add: loadNewest_storeNewest)

lemma loadNewest_sched_update [simp]: "loadNewest r (st\<lparr>sched := x\<rparr>) = loadNewest r st"
  by (simp add: loadNewest_def)

lemma interfere_agree:
  "sched s1 = sched s2 \<Longrightarrow> loadNewest r s1 = loadNewest r s2 \<Longrightarrow>
   sched (interfere s1) = sched (interfere s2) \<and>
   loadNewest r (interfere s1) = loadNewest r (interfere s2)"
proof (cases "sched s2")
  case Nil
  assume "sched s1 = sched s2" "loadNewest r s1 = loadNewest r s2"
  with Nil show ?thesis by (simp add: interfere_def)
next
  case (Cons ws rest)
  assume a: "sched s1 = sched s2" "loadNewest r s1 = loadNewest r s2"
  from loadNewest_foldl_agree [OF a(2), of ws] a(1) Cons show ?thesis
    by (simp add: interfere_def)
qed

lemma funpow_interfere_agree:
  "sched s1 = sched s2 \<Longrightarrow> loadNewest r s1 = loadNewest r s2 \<Longrightarrow>
   sched ((interfere ^^ n) s1) = sched ((interfere ^^ n) s2) \<and>
   loadNewest r ((interfere ^^ n) s1) = loadNewest r ((interfere ^^ n) s2)"
proof (induction n arbitrary: s1 s2)
  case 0
  then show ?case by simp
next
  case (Suc n)
  from interfere_agree [OF Suc.prems] Suc.IH [of "interfere s1" "interfere s2"]
  show ?case by (simp add: funpow_swap1)
qed

lemma loadNewest_funpow_storeNewest:
  "r \<noteq> r' \<Longrightarrow>
   loadNewest r ((interfere ^^ n) (storeNewest r' v st)) = loadNewest r ((interfere ^^ n) st)"
  using funpow_interfere_agree [of "storeNewest r' v st" st r n]
  by (simp add: loadNewest_storeNewest)

text \<open>No store of the schedule goes to the word \<open>r\<close>.\<close>

definition untouched :: "nat \<times> nat \<Rightarrow> ((nat \<times> nat) \<times> newest_ptr) list list \<Rightarrow> bool" where
  "untouched r schedule = (\<forall>ws\<in>set schedule. \<forall>w\<in>set ws. fst w \<noteq> r)"

lemma loadNewest_foldl_untouched:
  "\<forall>w\<in>set ws. fst w \<noteq> r \<Longrightarrow>
   loadNewest r (foldl (\<lambda>s w. storeNewest (fst w) (snd w) s) st ws) = loadNewest r st"
  by (induction ws arbitrary: st) (auto simp: loadNewest_storeNewest)

lemma loadNewest_interfere_untouched:
  "untouched r (sched st) \<Longrightarrow> loadNewest r (interfere st) = loadNewest r st"
  by (cases "sched st") (simp_all add: interfere_def untouched_def loadNewest_foldl_untouched)

lemma untouched_tl: "untouched r xs \<Longrightarrow> untouched r (tl xs)"
  by (cases xs) (simp_all add: untouched_def)

lemma adjustNewest_result:
  "ptr a \<noteq> desired a \<Longrightarrow> untouched (desired a) (sched st) \<Longrightarrow>
   \<exists>k\<ge>1. sched (adjustNewest a st) = drop k (sched st) \<and>
     loadNewest (ptr a) (adjustNewest a st) = MainPtr (desired a) \<and>
     ((k = 1 \<and> loadNewest (ptr a) (interfere st) = expected a \<and>
       loadNewest (desired a) (adjustNewest a st) = loadNewest (desired a) st) \<or>
      (k > 1 \<and> loadNewest (ptr a) (interfere st) \<noteq> expected a \<and>
       loadNewest (desired a) (adjustNewest a st) = loadNewest (ptr a) ((interfere ^^ k) st)))"
proof (induction a st rule: adjustNewest.induct)
  case (1 action st)
  let ?st1 = "interfere st"
  let ?c = "loadNewest (ptr action) ?st1"
  show ?case
  proof (cases "?c = expected action")
    case True
    then have r: "adjustNewest action st = storeNewest (ptr action) (MainPtr (desired action)) ?st1"
      by (subst adjustNewest.simps)
         (simp add: atomicCAS_def compare_exchange_strong_def Let_def)
    have "loadNewest (desired action) (adjustNewest action st) = loadNewest (desired action) st"
      using "1.prems" by (simp add: r loadNewest_storeNewest loadNewest_interfere_untouched)
    with True r show ?thesis
      by (intro exI [of _ 1]) (simp add: loadNewest_storeNewest drop_Suc)
  next
    case False
    let ?a' = "action\<lparr>expected := ?c\<rparr>"
    let ?st2 = "storeNewest (desired action) ?c ?st1"
    from False have r: "adjustNewest action st = adjustNewest ?a' ?st2"
      by (subst adjustNewest.simps)
         (simp add: atomicCAS_def compare_exchange_strong_def Let_def)
    from False have cas: "atomicCAS (ptr action) (expected action) (MainPtr (desired action)) st
        = (False, ?c, ?st1)"
      by (simp add: atomicCAS_def compare_exchange_strong_def Let_def)
    have p1: "ptr ?a' \<noteq> desired ?a'" using "1.prems"(1) by simp
    have p2: "untouched (desired ?a') (sched ?st2)"
      using "1.prems"(2) by (simp add: untouched_tl)
    have nf: "\<not> False" by simp
    from "1.IH" [OF cas [symmetric] refl nf p1 p2]
    obtain k where k: "k \<ge> 1" "sched (adjustNewest ?a' ?st2) = drop k (sched ?st2)"
      "loadNewest (ptr action) (adjustNewest ?a' ?st2) = MainPtr (desired action)"
      "(k = 1 \<and> loadNewest (ptr action) (interfere ?st2) = ?c \<and>
          loadNewest (desired action) (adjustNewest ?a' ?st2) = loadNewest (desired action) ?st2) \<or>
       (k > 1 \<and> loadNewest (desired action) (adjustNewest ?a' ?st2) =
          loadNewest (ptr action) ((interfere ^^ k) ?st2))"
      by auto
    have c2: "loadNewest (ptr action) ((interfere ^^ k) ?st2) =
              loadNewest (ptr action) ((interfere ^^ Suc k) st)"
      using "1.prems"(1) by (simp add: loadNewest_funpow_storeNewest funpow_swap1)
    have d: "loadNewest (desired action) (adjustNewest ?a' ?st2) =
             loadNewest (ptr action) ((interfere ^^ Suc k) st)"
    proof (cases "k = 1")
      case True
      with k(1,4) have "loadNewest (ptr action) (interfere ?st2) = ?c"
        and "loadNewest (desired action) (adjustNewest ?a' ?st2) = loadNewest (desired action) ?st2"
        by auto
      with c2 True show ?thesis by (simp add: loadNewest_storeNewest)
    next
      case False
      with k(1,4) c2 show ?thesis by auto
    qed
    from k(2) have s: "sched (adjustNewest ?a' ?st2) = drop (Suc k) (sched st)"
      by (simp add: drop_Suc)
    from k(1,3) d s False r show ?thesis
      by (intro exI [of _ "Suc k"]) simp
  qed
qed


lemma funpow_interfere_min:
  "(interfere ^^ k) st = (interfere ^^ min k (length (sched st))) st"
proof (induction k arbitrary: st)
  case 0
  show ?case by simp
next
  case (Suc k)
  show ?case
  proof (cases "sched st")
    case Nil
    then have i: "interfere st = st" by (simp add: interfere_Nil)
    then have "(interfere ^^ n) st = st" for n by (induction n) simp_all
    with Nil i show ?thesis by simp
  next
    case (Cons ws rest)
    then have l: "length (sched (interfere st)) = length rest" by simp
    have "(interfere ^^ Suc k) st = (interfere ^^ k) (interfere st)" by (simp add: funpow_swap1)
    also have "\<dots> = (interfere ^^ min k (length rest)) (interfere st)"
      using Suc.IH [of "interfere st"] l by simp
    also have "\<dots> = (interfere ^^ Suc (min k (length rest))) st" by (simp add: funpow_swap1)
    finally show ?thesis using Cons by simp
  qed
qed

text \<open>The words the writers store to \<open>r\<close> in the given batches, in order.\<close>

definition writesTo :: "nat \<times> nat \<Rightarrow> ((nat \<times> nat) \<times> newest_ptr) list list \<Rightarrow> newest_ptr list" where
  "writesTo r batches = concat (map (\<lambda>ws. map snd (filter (\<lambda>w. fst w = r) ws)) batches)"

lemma loadNewest_foldl_last:
  "loadNewest r (foldl (\<lambda>s w. storeNewest (fst w) (snd w) s) st ws) =
     last (loadNewest r st # map snd (filter (\<lambda>w. fst w = r) ws))"
  by (induction ws arbitrary: st) (simp_all add: loadNewest_storeNewest)

lemma loadNewest_funpow_interfere:
  "loadNewest r ((interfere ^^ n) st) = last (loadNewest r st # writesTo r (take n (sched st)))"
proof (induction n arbitrary: st)
  case 0
  show ?case by (simp add: writesTo_def)
next
  case (Suc n)
  show ?case
  proof (cases "sched st")
    case Nil
    then have i: "interfere st = st" by (simp add: interfere_Nil)
    then have "(interfere ^^ m) st = st" for m by (induction m) simp_all
    with Nil i show ?thesis by (simp add: writesTo_def)
  next
    case (Cons ws rest)
    have "loadNewest r ((interfere ^^ Suc n) st) = loadNewest r ((interfere ^^ n) (interfere st))"
      by (simp add: funpow_swap1)
    also have "\<dots> = last (loadNewest r (interfere st) # writesTo r (take n rest))"
      using Suc.IH [of "interfere st"] Cons by simp
    also have "loadNewest r (interfere st) = last (loadNewest r st # map snd (filter (\<lambda>w. fst w = r) ws))"
      using Cons by (simp add: interfere_def loadNewest_foldl_last)
    finally show ?thesis using Cons
      by (simp add: writesTo_def last_append del: last.simps) (simp add: last_append)
  qed
qed

text \<open>
  Modelled from the spec: the writers, whose code is not part of the sources. A writer
  sets the \<^verbatim>\<open>previous\<close> of its new log entry to the head it observed and installs the
  entry with an exchange on \<^verbatim>\<open>newest\<close>; so each word stored to a record's \<^verbatim>\<open>newest\<close> has
  as its \<^verbatim>\<open>previous\<close> the word it replaced (\<open>linked\<close>, with \<open>prev\<close> the \<^verbatim>\<open>previous\<close> of a
  log entry). \<open>followPrevious prev n p\<close> are the first \<open>n\<close> entries of the chain of
  \<open>p\<close>.
\<close>

fun linked :: "(newest_ptr \<Rightarrow> newest_ptr) \<Rightarrow> newest_ptr \<Rightarrow> newest_ptr list \<Rightarrow> bool" where
  "linked prev q [] = True"
| "linked prev q (p # ps) = (prev p = q \<and> linked prev p ps)"

fun followPrevious :: "(newest_ptr \<Rightarrow> newest_ptr) \<Rightarrow> nat \<Rightarrow> newest_ptr \<Rightarrow> newest_ptr list" where
  "followPrevious prev 0 p = []"
| "followPrevious prev (Suc n) p = p # followPrevious prev n (prev p)"

lemma linked_snoc: "linked prev q (ps @ [p]) = (linked prev q ps \<and> prev p = last (q # ps))"
  by (induction ps arbitrary: q) auto

lemma linked_follow:
  "linked prev q ps \<Longrightarrow> followPrevious prev (length ps) (last (q # ps)) = rev ps"
proof (induction ps arbitrary: q rule: rev_induct)
  case Nil
  show ?case by simp
next
  case (snoc p ps)
  then have l: "linked prev q ps" and p: "prev p = last (q # ps)"
    by (simp_all add: linked_snoc)
  from snoc.IH [OF l] p show ?case by simp
qed

subsection \<open>What the steps of the modifier leave as it is\<close>

text \<open>
  \<open>emits st st'\<close>: from \<open>st\<close> to \<open>st'\<close> only rows of the fill page from \<open>mFillIdx st\<close> on and
  rows of the update page from \<open>mUpdateIdx st\<close> on have been written, and the three
  counters \<open>mFillIdx\<close>, \<open>mUpdateIdx\<close> and \<open>mFillSize\<close> moved.
\<close>

definition emits :: "'d modifier \<Rightarrow> 'd modifier \<Rightarrow> bool" where
  "emits st st' =
     (mMinVersion st' = mMinVersion st \<and> mUpdatePage st' = mUpdatePage st \<and>
      mUpdateStartIdx st' = mUpdateStartIdx st \<and> mUpdateEndIdx st' = mUpdateEndIdx st \<and>
      mFillPage st' = mFillPage st \<and> mFillEndIdx st' = mFillEndIdx st \<and>
      mCleanActions st' = mCleanActions st \<and> mPointerActions st' = mPointerActions st \<and>
      mPageList st' = mPageList st \<and> allocated st' = allocated st \<and>
      mainTable st' = mainTable st \<and> sched st' = sched st \<and>
      (\<forall>p. count (pages st' p) = count (pages st p)) \<and>
      (\<forall>p j. p \<noteq> mFillPage st \<or> j < mFillIdx st \<longrightarrow>
         entryData (pages st' p) j = entryData (pages st p) j) \<and>
      (\<forall>p j. p \<noteq> mUpdatePage st \<or> j < mUpdateIdx st \<longrightarrow>
         sizeData (pages st' p) j = sizeData (pages st p) j \<and>
         recordData (pages st' p) j = recordData (pages st p) j))"

lemma emits_refl: "emits st st"
  by (simp add: emits_def)

lemma emits_counters:
  "emits st (st\<lparr>mUpdateIdx := a, mFillIdx := b, mFillSize := c\<rparr>)"
  "emits st (st\<lparr>mFillIdx := b, mFillSize := c\<rparr>)"
  "emits st (st\<lparr>mFillIdx := b, mFillSize := c, mUpdateIdx := a\<rparr>)"
  "emits st (st\<lparr>mFillSize := c\<rparr>)"
  by (simp_all add: emits_def)

lemma emits_trans:
  "emits st st1 \<Longrightarrow> emits st1 st2 \<Longrightarrow> mFillIdx st \<le> mFillIdx st1 \<Longrightarrow>
   mUpdateIdx st \<le> mUpdateIdx st1 \<Longrightarrow> emits st st2"
  unfolding emits_def
  apply (intro conjI)
                apply simp_all
   apply (metis order.strict_trans2)
  apply (metis order.strict_trans2)
  done

lemma emits_writeUpdate:
  "emits st (writeUpdate e (st\<lparr>mFillSize := c\<rparr>)) \<and>
   mFillIdx (writeUpdate e (st\<lparr>mFillSize := c\<rparr>)) = mFillIdx st + 1 \<and>
   mUpdateIdx (writeUpdate e (st\<lparr>mFillSize := c\<rparr>)) = mUpdateIdx st + 1"
  by (simp add: emits_def writeUpdate_def writeFillEntry_def writeData_def Let_def)

lemma emits_writeFillEntry:
  "emits st ((writeFillEntry k v (st\<lparr>mFillSize := c\<rparr>))\<lparr>mFillIdx := mFillIdx st + 1\<rparr>)"
  by (simp add: emits_def writeFillEntry_def)

lemma processUpdatesLoop_emits:
  "processUpdatesLoop ctx it wd st = (ok, lv, wd', st') \<Longrightarrow> emits st st'"
proof (induction ctx it wd st rule: processUpdatesLoop.induct)
  case (1 ctx updateIter wasDelete st)
  let ?e = "iter_value updateIter"
  let ?sz1 = "if logType ?e = DELETE then entryOverhead ctx + fixedSize ctx
              else entryOverhead ctx + dataSize ?e"
  let ?st1 = "st\<lparr>mFillSize := mFillSize st + ?sz1\<rparr>"
  let ?st2 = "writeUpdate ?e ?st1"
  show ?case
  proof (cases "\<not> iter_done updateIter \<and> \<not> (wasDelete \<and> logVersion ?e < mMinVersion st) \<and>
      \<not> (logType ?e = DELETE \<and> logVersion ?e \<le> mMinVersion st) \<and>
      \<not> mFillSize ?st1 > MAX_DATA_SIZE ctx \<and> \<not> logVersion ?e \<le> mMinVersion st")
    case True
    with "1.prems" have r: "processUpdatesLoop ctx (iter_next updateIter) (logType ?e = DELETE) ?st2
        = (ok, lv, wd', st')"
      by (subst (asm) processUpdatesLoop.simps) (simp add: Let_def)
    from True have c: "\<not> iter_done updateIter" "\<not> (wasDelete \<and> logVersion ?e < mMinVersion st)"
      "\<not> (logType ?e = DELETE \<and> logVersion ?e \<le> mMinVersion st)"
      "\<not> mFillSize ?st1 > MAX_DATA_SIZE ctx" "\<not> logVersion ?e \<le> mMinVersion st"
      by simp_all
    have ih: "emits ?st2 st'"
      by (rule "1.IH" [OF c(1) refl refl c(2) c(3) refl refl refl c(4) refl c(5) r])
    from emits_writeUpdate [of st ?e "mFillSize st + ?sz1"] ih show ?thesis
      by (intro emits_trans [of st ?st2 st']) simp_all
  next
    case False
    with "1.prems" show ?thesis
      by (subst (asm) processUpdatesLoop.simps)
         (auto simp: Let_def emits_refl emits_counters emits_writeUpdate split: if_splits)
  qed
qed

lemma copyLoop_emits:
  "copyLoop ctx src baseIdx cs i ce wd st = (ov, i1, ce1, wd1, st') \<Longrightarrow> emits st st'"
proof (induction ctx src baseIdx cs i ce wd st rule: copyLoop.induct)
  case (1 ctx src baseIdx copyStartIdx i copyEndIdx wasDelete st)
  let ?v = "version (entryData src i)"
  let ?sz1 = "if sizeData src i = 0 then entryOverhead ctx + fixedSize ctx
              else entryOverhead ctx + sizeData src i"
  let ?st1 = "st\<lparr>mFillSize := mFillSize st + ?sz1\<rparr>"
  let ?st2 = "writeFillEntry (key (entryData src baseIdx)) ?v ?st1"
  let ?st3 = "?st2\<lparr>mFillIdx := mFillIdx ?st2 + 1\<rparr>"
  have e3: "emits st ?st3" "mFillIdx ?st3 = mFillIdx st + 1" "mUpdateIdx ?st3 = mUpdateIdx st"
    using emits_writeFillEntry [of st "key (entryData src baseIdx)" ?v "mFillSize st + ?sz1"]
    by (simp_all add: writeFillEntry_def)
  show ?case
  proof (cases "(i < count src \<and> key (entryData src i) = key (entryData src baseIdx)) \<and>
      \<not> (wasDelete \<and> ?v < mMinVersion st) \<and>
      \<not> (sizeData src i = 0 \<and> ?v \<le> mMinVersion st) \<and>
      \<not> mFillSize ?st1 > MAX_DATA_SIZE ctx \<and> \<not> ?v \<le> mMinVersion st")
    case True
    with "1.prems" have r: "copyLoop ctx src baseIdx copyStartIdx (i + 1) (copyEndIdx + 1)
         (sizeData src i = 0) ?st3 = (ov, i1, ce1, wd1, st')"
      by (subst (asm) copyLoop.simps) (simp add: Let_def)
    from True have c: "i < count src \<and> key (entryData src i) = key (entryData src baseIdx)"
      "\<not> (wasDelete \<and> ?v < mMinVersion st)"
      "\<not> (sizeData src i = 0 \<and> ?v \<le> mMinVersion st)"
      "\<not> mFillSize ?st1 > MAX_DATA_SIZE ctx" "\<not> ?v \<le> mMinVersion st"
      by simp_all
    have ih: "emits ?st3 st'"
      by (rule "1.IH" [OF c(1) refl c(2) c(3) refl refl refl c(4) refl refl c(5) r])
    from e3 ih show ?thesis
      by (intro emits_trans [of st ?st3 st']) simp_all
  next
    case False
    with "1.prems" e3(1) show ?thesis
      by (subst (asm) copyLoop.simps)
         (auto simp: Let_def emits_refl emits_counters split: if_splits)
  qed
qed

text \<open>
  \<open>newestOnly st st'\<close>: from \<open>st\<close> to \<open>st'\<close> only \<^verbatim>\<open>newest\<close> words have been stored to and
  batches of the writers' schedule consumed.
\<close>

definition newestOnly :: "'d modifier \<Rightarrow> 'd modifier \<Rightarrow> bool" where
  "newestOnly st st' =
     (mMinVersion st' = mMinVersion st \<and> mUpdatePage st' = mUpdatePage st \<and>
      mUpdateStartIdx st' = mUpdateStartIdx st \<and> mUpdateEndIdx st' = mUpdateEndIdx st \<and>
      mUpdateIdx st' = mUpdateIdx st \<and>
      mFillPage st' = mFillPage st \<and> mFillEndIdx st' = mFillEndIdx st \<and>
      mFillIdx st' = mFillIdx st \<and> mFillSize st' = mFillSize st \<and>
      mCleanActions st' = mCleanActions st \<and> mPointerActions st' = mPointerActions st \<and>
      mPageList st' = mPageList st \<and> allocated st' = allocated st \<and>
      mainTable st' = mainTable st \<and>
      (\<forall>p. count (pages st' p) = count (pages st p) \<and>
           sizeData (pages st' p) = sizeData (pages st p) \<and>
           recordData (pages st' p) = recordData (pages st p)) \<and>
      (\<forall>p j. key (entryData (pages st' p) j) = key (entryData (pages st p) j) \<and>
             version (entryData (pages st' p) j) = version (entryData (pages st p) j)))"

lemma newestOnly_refl: "newestOnly st st"
  by (simp add: newestOnly_def)

lemma newestOnly_trans: "newestOnly st st1 \<Longrightarrow> newestOnly st1 st2 \<Longrightarrow> newestOnly st st2"
  by (simp add: newestOnly_def)

lemma newestOnly_storeNewest: "newestOnly st (storeNewest r v st)"
  by (simp add: newestOnly_def storeNewest_def)

lemma newestOnly_sched: "newestOnly st (st\<lparr>sched := x\<rparr>)"
  by (simp add: newestOnly_def)

lemma newestOnly_foldl:
  "newestOnly st (foldl (\<lambda>s w. storeNewest (fst w) (snd w) s) st ws)"
proof (induction ws arbitrary: st)
  case Nil
  show ?case by (simp add: newestOnly_refl)
next
  case (Cons w ws)
  from newestOnly_trans [OF newestOnly_storeNewest Cons.IH] show ?case by simp
qed

lemma newestOnly_interfere: "newestOnly st (interfere st)"
proof (cases "sched st")
  case Nil
  then show ?thesis by (simp add: interfere_def newestOnly_refl)
next
  case (Cons ws rest)
  from newestOnly_trans [OF newestOnly_foldl newestOnly_sched]
  show ?thesis using Cons by (simp add: interfere_def)
qed

lemma newestOnly_adjustNewest: "newestOnly st (adjustNewest a st)"
proof (induction a st rule: adjustNewest.induct)
  case (1 action st)
  let ?st1 = "interfere st"
  let ?c = "loadNewest (ptr action) ?st1"
  show ?case
  proof (cases "?c = expected action")
    case True
    then have r: "adjustNewest action st = storeNewest (ptr action) (MainPtr (desired action)) ?st1"
      by (subst adjustNewest.simps)
         (simp add: atomicCAS_def compare_exchange_strong_def Let_def)
    from newestOnly_trans [OF newestOnly_interfere newestOnly_storeNewest] r
    show ?thesis by simp
  next
    case False
    let ?a' = "action\<lparr>expected := ?c\<rparr>"
    let ?st2 = "storeNewest (desired action) ?c ?st1"
    from False have r: "adjustNewest action st = adjustNewest ?a' ?st2"
      by (subst adjustNewest.simps)
         (simp add: atomicCAS_def compare_exchange_strong_def Let_def)
    from False have cas: "atomicCAS (ptr action) (expected action) (MainPtr (desired action)) st
        = (False, ?c, ?st1)"
      by (simp add: atomicCAS_def compare_exchange_strong_def Let_def)
    have nf: "\<not> False" by simp
    have ih: "newestOnly ?st2 (adjustNewest ?a' ?st2)"
      by (rule "1.IH" [OF cas [symmetric] refl nf])
    from newestOnly_trans [OF newestOnly_trans [OF newestOnly_interfere newestOnly_storeNewest] ih]
    show ?thesis by (simp add: r)
  qed
qed

lemma newestOnly_publish:
  "newestOnly st (foldl (\<lambda>s a. adjustNewest a s) st acts)"
proof (induction acts arbitrary: st)
  case Nil
  show ?case by (simp add: newestOnly_refl)
next
  case (Cons a acts)
  from newestOnly_trans [OF newestOnly_adjustNewest Cons.IH] show ?case by simp
qed

text \<open>The iterations of the loop of \<^verbatim>\<open>clean\<close>: \<open>clean_iterations k\<close> is the state at the test
  of the loop condition after \<open>k\<close> iterations (or fewer, if the loop has ended).\<close>

definition loop_body ::
    "ColumnMapContext \<Rightarrow> (newest_ptr \<Rightarrow> 'd UpdateLogEntry list) \<Rightarrow> 'd ColumnMapMainPage \<Rightarrow> nat \<Rightarrow>
       nat \<times> nat \<times> nat \<times> ('d::zero) modifier \<Rightarrow> nat \<times> nat \<times> nat \<times> 'd modifier" where
  "loop_body ctx updates src page x =
     (case x of (i, mainStartIdx, mainEndIdx, st) \<Rightarrow>
        if i < count src then clean_step ctx updates src page i mainStartIdx mainEndIdx st else x)"

definition clean_iterations ::
    "nat \<Rightarrow> ColumnMapContext \<Rightarrow> (newest_ptr \<Rightarrow> 'd UpdateLogEntry list) \<Rightarrow> 'd ColumnMapMainPage \<Rightarrow>
       nat \<Rightarrow> nat \<times> nat \<times> nat \<times> ('d::zero) modifier \<Rightarrow> nat \<times> nat \<times> nat \<times> 'd modifier" where
  "clean_iterations k ctx updates src page x = (loop_body ctx updates src page ^^ k) x"

lemma clean_loop_end:
  "\<not> i < count src \<Longrightarrow> clean_loop n ctx updates src page i ms me st = Some (ms, me, st)"
  by (cases n) simp_all

lemma clean_loop_iterations:
  "clean_loop (k + n) ctx updates src page i ms me st =
     (case clean_iterations k ctx updates src page (i, ms, me, st) of
        (i', ms', me', st') \<Rightarrow> clean_loop n ctx updates src page i' ms' me' st')"
proof (induction k arbitrary: i ms me st)
  case 0
  show ?case by (simp add: clean_iterations_def)
next
  case (Suc k)
  show ?case
  proof (cases "i < count src")
    case True
    obtain i' ms' me' st' where s: "clean_step ctx updates src page i ms me st = (i', ms', me', st')"
      by (cases "clean_step ctx updates src page i ms me st") auto
    have "clean_iterations (Suc k) ctx updates src page (i, ms, me, st) =
          clean_iterations k ctx updates src page (i', ms', me', st')"
      using True s by (simp add: clean_iterations_def funpow_swap1 loop_body_def)
    with Suc.IH [of i' ms' me' st'] True s show ?thesis by simp
  next
    case False
    have "(loop_body ctx updates src page ^^ m) (i, ms, me, st) = (i, ms, me, st)" for m
      using False by (induction m) (simp_all add: loop_body_def)
    then have "clean_iterations (Suc k) ctx updates src page (i, ms, me, st) = (i, ms, me, st)"
      unfolding clean_iterations_def by blast
    with False show ?thesis by (simp add: clean_loop_end)
  qed
qed

subsection \<open>The outcome of an iteration\<close>

text \<open>
  The modifier after the exchange of a record's \<^verbatim>\<open>newest\<close> for the invalid tag has
  succeeded and the key has been removed from the hash table.
\<close>

definition invalidated :: "nat \<Rightarrow> nat \<Rightarrow> 64 word \<Rightarrow> 'd modifier \<Rightarrow> 'd modifier" where
  "invalidated page i k st =
     (storeNewest (page, i) InvalidTag (interfere st))
       \<lparr>mainTable := (mainTable (interfere st))(k := None)\<rparr>"

lemma invalidateRecord_eq:
  "invalidateRecord src page baseIdx nw st =
     (if loadNewest (page, baseIdx) (interfere st) = nw
      then (True, invalidated page baseIdx (key (entryData src baseIdx)) st)
      else (False, interfere st))"
  by (simp add: invalidateRecord_def atomicCAS_def compare_exchange_strong_def Let_def
      invalidated_def storeNewest_def)

lemma invalidated_facts:
  "loadNewest (page, i) (invalidated page i k st) = InvalidTag \<and>
   mainTable (invalidated page i k st) k = None \<and>
   sched (invalidated page i k st) = tl (sched st)"
  by (simp add: invalidated_def loadNewest_storeNewest loadNewest_def storeNewest_def)

lemma clean_iterated:
  assumes "needsCleaning page st"
    and "clean_iterations k ctx updates (pages st page) page (0, 0, 0, st) = (i, ms, me, s)"
  shows "clean (k + n) ctx updates page st =
           clean_end page (clean_loop n ctx updates (pages st page) page i ms me s)"
  using assms by (simp add: clean_def clean_loop_iterations)

text \<open>
  \<open>keepsSource st st'\<close>: from \<open>st\<close> to \<open>st'\<close> the modifier has worked on its fill page, its
  update page and its lists of clean actions only.
\<close>

definition keepsSource :: "'d modifier \<Rightarrow> 'd modifier \<Rightarrow> bool" where
  "keepsSource st st' =
     (mMinVersion st' = mMinVersion st \<and> mFillPage st' = mFillPage st \<and>
      mUpdatePage st' = mUpdatePage st \<and>
      mFillEndIdx st' = mFillEndIdx st \<and> mPointerActions st' = mPointerActions st \<and>
      mPageList st' = mPageList st \<and> allocated st' = allocated st \<and>
      mainTable st' = mainTable st \<and> sched st' = sched st \<and>
      (\<forall>r. fst r \<noteq> mFillPage st \<longrightarrow> loadNewest r st' = loadNewest r st))"

lemma keepsSource_refl: "keepsSource st st"
  by (simp add: keepsSource_def)

lemma keepsSource_trans: "keepsSource st st1 \<Longrightarrow> keepsSource st1 st2 \<Longrightarrow> keepsSource st st2"
  by (simp add: keepsSource_def)

lemma emits_keepsSource: "emits st st' \<Longrightarrow> keepsSource st st'"
  by (simp add: emits_def keepsSource_def loadNewest_def)

lemma keepsSource_flushPendingMain:
  "flushPendingMain page ms me st = (ms', me', st') \<Longrightarrow> keepsSource st st'"
  by (auto simp: flushPendingMain_def addCleanAction_def keepsSource_def loadNewest_def
      split: if_splits)

lemma keepsSource_processUpdates:
  "processUpdates ctx updates nw bv wd st = (ok, lv, wd', st') \<Longrightarrow> keepsSource st st'"
  unfolding processUpdates_def by (rule emits_keepsSource [OF processUpdatesLoop_emits])

lemma keepsSource_copyLoop:
  "copyLoop ctx src baseIdx cs i ce wd st = (ov, i1, ce1, wd1, st') \<Longrightarrow> keepsSource st st'"
  by (rule emits_keepsSource [OF copyLoop_emits])

lemma skipKey_ge: "i \<le> skipKey src k i"
proof (induction src k i rule: skipKey.induct)
  case (1 src k i)
  show ?case
  proof (cases "i < count src \<and> key (entryData src i) = k")
    case True
    from "1.IH" [OF True] True show ?thesis by (subst skipKey.simps) simp
  next
    case False
    then show ?thesis by (subst skipKey.simps) auto
  qed
qed

lemma skipKey_gt: "i < count src \<Longrightarrow> key (entryData src i) = k \<Longrightarrow> i < skipKey src k i"
  using skipKey_ge [of "i + 1" src k] by (subst skipKey.simps) simp

lemma skipAbove_ge: "i \<le> skipAbove src k l i"
proof (induction src k l i rule: skipAbove.induct)
  case (1 src k lowest i)
  show ?case
  proof (cases "i < count src \<and> key (entryData src i) = k \<and> version (entryData src i) \<ge> lowest")
    case True
    from "1.IH" [OF True] True show ?thesis by (subst skipAbove.simps) simp
  next
    case False
    then show ?thesis by (subst skipAbove.simps) auto
  qed
qed

lemma copyLoop_index:
  "copyLoop ctx src baseIdx cs i ce wd st = (ov, i1, ce1, wd1, st') \<Longrightarrow> i \<le> i1"
proof (induction ctx src baseIdx cs i ce wd st rule: copyLoop.induct)
  case (1 ctx src baseIdx copyStartIdx i copyEndIdx wasDelete st)
  let ?v = "version (entryData src i)"
  let ?sz1 = "if sizeData src i = 0 then entryOverhead ctx + fixedSize ctx
              else entryOverhead ctx + sizeData src i"
  let ?st1 = "st\<lparr>mFillSize := mFillSize st + ?sz1\<rparr>"
  let ?st2 = "writeFillEntry (key (entryData src baseIdx)) ?v ?st1"
  let ?st3 = "?st2\<lparr>mFillIdx := mFillIdx ?st2 + 1\<rparr>"
  show ?case
  proof (cases "(i < count src \<and> key (entryData src i) = key (entryData src baseIdx)) \<and>
      \<not> (wasDelete \<and> ?v < mMinVersion st) \<and>
      \<not> (sizeData src i = 0 \<and> ?v \<le> mMinVersion st) \<and>
      \<not> mFillSize ?st1 > MAX_DATA_SIZE ctx \<and> \<not> ?v \<le> mMinVersion st")
    case True
    with "1.prems" have r: "copyLoop ctx src baseIdx copyStartIdx (i + 1) (copyEndIdx + 1)
         (sizeData src i = 0) ?st3 = (ov, i1, ce1, wd1, st')"
      by (subst (asm) copyLoop.simps) (simp add: Let_def)
    from True have c: "i < count src \<and> key (entryData src i) = key (entryData src baseIdx)"
      "\<not> (wasDelete \<and> ?v < mMinVersion st)"
      "\<not> (sizeData src i = 0 \<and> ?v \<le> mMinVersion st)"
      "\<not> mFillSize ?st1 > MAX_DATA_SIZE ctx" "\<not> ?v \<le> mMinVersion st"
      by simp_all
    have "i + 1 \<le> i1"
      by (rule "1.IH" [OF c(1) refl c(2) c(3) refl refl refl c(4) refl refl c(5) r])
    then show ?thesis by simp
  next
    case False
    with "1.prems" show ?thesis
      by (subst (asm) copyLoop.simps) (auto simp: Let_def split: if_splits)
  qed
qed

text \<open>The modifier after a record has been kept: its pointer action is enqueued.\<close>

definition recorded ::
    "nat \<times> nat \<Rightarrow> newest_ptr \<Rightarrow> 64 word \<Rightarrow> 'd modifier \<Rightarrow> 'd modifier \<Rightarrow> bool" where
  "recorded r nw k st st' =
     (mPointerActions st' = mPointerActions st @
         [\<lparr>ptr = r, expected = nw, desired = (mFillPage st, mFillEndIdx st)\<rparr>] \<and>
      mainTable st' = (mainTable st)(k \<mapsto> (mFillPage st, mFillEndIdx st)) \<and>
      pages st' = pages st \<and> sched st' = sched st \<and> mPageList st' = mPageList st \<and>
      mFillPage st' = mFillPage st \<and> mUpdatePage st' = mUpdatePage st \<and>
      allocated st' = allocated st \<and> mMinVersion st' = mMinVersion st)"

lemma publishCopy_outcome:
  assumes "publishCopy src page baseIdx nw cs ce i1 ms me st = (i', ms', me', st')"
  shows "(loadNewest (page, baseIdx) (interfere st) \<noteq> nw \<and> i' = baseIdx \<and> st' = interfere st) \<or>
         (loadNewest (page, baseIdx) (interfere st) = nw \<and>
          i' = skipKey src (key (entryData src baseIdx)) i1 \<and>
          st' = invalidated page baseIdx (key (entryData src baseIdx)) st) \<or>
         (i' = skipKey src (key (entryData src baseIdx)) i1 \<and>
          recorded (page, baseIdx) nw (key (entryData src baseIdx)) st st')"
proof (cases "mFillIdx st = mFillEndIdx st")
  case True
  with assms show ?thesis
    by (auto simp: publishCopy_def invalidateRecord_eq split: if_splits)
next
  case False
  with assms show ?thesis
    by (auto simp: publishCopy_def enqueuePointerAction_def flushPendingMain_def
        addCleanAction_def enqueueUpdates_def recorded_def Let_def split: if_splits)
qed

text \<open>
  The bytes the copy loop accounts for a main row, and for the rows of a key from row
  \<open>i\<close> on.
\<close>

definition mainSize :: "ColumnMapContext \<Rightarrow> 'd ColumnMapMainPage \<Rightarrow> nat \<Rightarrow> nat" where
  "mainSize ctx src i =
     (if sizeData src i = 0 then entryOverhead ctx + fixedSize ctx
      else entryOverhead ctx + sizeData src i)"

function runSize :: "ColumnMapContext \<Rightarrow> 'd ColumnMapMainPage \<Rightarrow> 64 word \<Rightarrow> nat \<Rightarrow> nat" where
  "runSize ctx src k i =
     (if i < count src \<and> key (entryData src i) = k
      then mainSize ctx src i + runSize ctx src k (i + 1) else 0)"
  by pat_completeness auto
termination
  by (relation "measure (\<lambda>(ctx, src, k, i). count src - i)") auto

declare runSize.simps [simp del]

definition recordSize ::
    "ColumnMapContext \<Rightarrow> (newest_ptr \<Rightarrow> 'd UpdateLogEntry list) \<Rightarrow> 'd ColumnMapMainPage \<Rightarrow>
       newest_ptr \<Rightarrow> nat \<Rightarrow> nat" where
  "recordSize ctx updates src nw i =
     sum_list (map (updateSize ctx) (updates nw)) + runSize ctx src (key (entryData src i)) i"

lemma processUpdatesLoop_size:
  "processUpdatesLoop ctx it wd st = (ok, lv, wd', st') \<Longrightarrow>
   mFillSize st' \<le> mFillSize st + sum_list (map (updateSize ctx) (remaining it)) \<and>
   (\<not> ok \<longrightarrow> MAX_DATA_SIZE ctx < mFillSize st')"
proof (induction ctx it wd st rule: processUpdatesLoop.induct)
  case (1 ctx updateIter wasDelete st)
  let ?e = "iter_value updateIter"
  let ?sz1 = "if logType ?e = DELETE then entryOverhead ctx + fixedSize ctx
              else entryOverhead ctx + dataSize ?e"
  let ?st1 = "st\<lparr>mFillSize := mFillSize st + ?sz1\<rparr>"
  let ?st2 = "writeUpdate ?e ?st1"
  show ?case
  proof (cases "iter_done updateIter")
    case True
    with "1.prems" show ?thesis
      by (subst (asm) processUpdatesLoop.simps) auto
  next
    case nd: False
    then obtain rest where rem: "remaining updateIter = ?e # rest"
      by (cases "remaining updateIter") (auto simp: iter_done_def iter_value_def)
    have sz: "updateSize ctx ?e = ?sz1" by (simp add: updateSize_def)
    show ?thesis
    proof (cases "\<not> (wasDelete \<and> logVersion ?e < mMinVersion st) \<and>
      \<not> (logType ?e = DELETE \<and> logVersion ?e \<le> mMinVersion st) \<and>
      \<not> mFillSize ?st1 > MAX_DATA_SIZE ctx \<and> \<not> logVersion ?e \<le> mMinVersion st")
      case True
      with "1.prems" nd
      have r: "processUpdatesLoop ctx (iter_next updateIter) (logType ?e = DELETE) ?st2
          = (ok, lv, wd', st')"
        by (subst (asm) processUpdatesLoop.simps) (simp add: Let_def)
      from True have c: "\<not> (wasDelete \<and> logVersion ?e < mMinVersion st)"
        "\<not> (logType ?e = DELETE \<and> logVersion ?e \<le> mMinVersion st)"
        "\<not> mFillSize ?st1 > MAX_DATA_SIZE ctx" "\<not> logVersion ?e \<le> mMinVersion st"
        by simp_all
      have ih: "mFillSize st' \<le> mFillSize ?st2 +
            sum_list (map (updateSize ctx) (remaining (iter_next updateIter))) \<and>
          (\<not> ok \<longrightarrow> MAX_DATA_SIZE ctx < mFillSize st')"
        by (rule "1.IH" [OF nd refl refl c(1) c(2) refl refl refl c(3) refl c(4) r])
      have "mFillSize ?st2 = mFillSize st + ?sz1" by simp
      with ih rem sz show ?thesis by simp
    next
      case False
      with "1.prems" nd rem sz show ?thesis
        by (subst (asm) processUpdatesLoop.simps) (auto simp: Let_def split: if_splits)
    qed
  qed
qed

lemma copyLoop_size:
  "copyLoop ctx src baseIdx cs i ce wd st = (ov, i1, ce1, wd1, st') \<Longrightarrow>
   mFillSize st' \<le> mFillSize st + runSize ctx src (key (entryData src baseIdx)) i \<and>
   (ov \<longrightarrow> MAX_DATA_SIZE ctx < mFillSize st')"
proof (induction ctx src baseIdx cs i ce wd st rule: copyLoop.induct)
  case (1 ctx src baseIdx copyStartIdx i copyEndIdx wasDelete st)
  let ?k = "key (entryData src baseIdx)"
  let ?v = "version (entryData src i)"
  let ?sz1 = "if sizeData src i = 0 then entryOverhead ctx + fixedSize ctx
              else entryOverhead ctx + sizeData src i"
  let ?st1 = "st\<lparr>mFillSize := mFillSize st + ?sz1\<rparr>"
  let ?st2 = "writeFillEntry ?k ?v ?st1"
  let ?st3 = "?st2\<lparr>mFillIdx := mFillIdx ?st2 + 1\<rparr>"
  show ?case
  proof (cases "i < count src \<and> key (entryData src i) = ?k")
    case False
    with "1.prems" show ?thesis
      by (subst (asm) copyLoop.simps) auto
  next
    case in_run: True
    then have rs: "runSize ctx src ?k i = ?sz1 + runSize ctx src ?k (i + 1)"
      by (subst runSize.simps) (simp add: mainSize_def)
    show ?thesis
    proof (cases "\<not> (wasDelete \<and> ?v < mMinVersion st) \<and>
      \<not> (sizeData src i = 0 \<and> ?v \<le> mMinVersion st) \<and>
      \<not> mFillSize ?st1 > MAX_DATA_SIZE ctx \<and> \<not> ?v \<le> mMinVersion st")
      case True
      with "1.prems" in_run
      have r: "copyLoop ctx src baseIdx copyStartIdx (i + 1) (copyEndIdx + 1)
           (sizeData src i = 0) ?st3 = (ov, i1, ce1, wd1, st')"
        by (subst (asm) copyLoop.simps) (simp add: Let_def)
      from True have c: "\<not> (wasDelete \<and> ?v < mMinVersion st)"
        "\<not> (sizeData src i = 0 \<and> ?v \<le> mMinVersion st)"
        "\<not> mFillSize ?st1 > MAX_DATA_SIZE ctx" "\<not> ?v \<le> mMinVersion st"
        by simp_all
      have ih: "mFillSize st' \<le> mFillSize ?st3 + runSize ctx src ?k (i + 1) \<and>
          (ov \<longrightarrow> MAX_DATA_SIZE ctx < mFillSize st')"
        by (rule "1.IH" [OF in_run refl c(1) c(2) refl refl refl c(3) refl refl c(4) r])
      have "mFillSize ?st3 = mFillSize st + ?sz1" by (simp add: writeFillEntry_def)
      with ih rs show ?thesis by simp
    next
      case False
      with "1.prems" in_run rs show ?thesis
        by (subst (asm) copyLoop.simps)
           (auto simp: Let_def writeFillEntry_def split: if_splits)
    qed
  qed
qed

lemma skipAbove_runSize: "runSize ctx src k (skipAbove src k l i) \<le> runSize ctx src k i"
proof (induction src k l i rule: skipAbove.induct)
  case (1 src k lowest i)
  show ?case
  proof (cases "i < count src \<and> key (entryData src i) = k \<and> version (entryData src i) \<ge> lowest")
    case True
    then have s: "skipAbove src k lowest i = skipAbove src k lowest (i + 1)"
      by (subst skipAbove.simps) simp
    from True have r: "runSize ctx src k i = mainSize ctx src i + runSize ctx src k (i + 1)"
      by (subst runSize.simps) simp
    from "1.IH" [OF True] s r show ?thesis by simp
  next
    case False
    then have "skipAbove src k lowest i = i" by (subst skipAbove.simps) auto
    then show ?thesis by simp
  qed
qed

lemma skipKey_past:
  "i < count src \<Longrightarrow> i \<le> i1 \<Longrightarrow> i < skipKey src (key (entryData src i)) i1"
proof (cases "i1 = i")
  case True
  assume "i < count src"
  with True skipKey_gt [of i src "key (entryData src i)"] show ?thesis by simp
next
  case False
  assume "i \<le> i1"
  with False skipKey_ge [of i1 src "key (entryData src i)"] show ?thesis by simp
qed

lemma mFillSize_flushPendingMain:
  "flushPendingMain page ms me st = (ms', me', st') \<Longrightarrow> mFillSize st' = mFillSize st"
  by (auto simp: flushPendingMain_def addCleanAction_def split: if_splits)

text \<open>
  The ways an iteration for the row \<open>i\<close> ends, with \<open>s0\<close> the modifier after the load of
  \<open>nw\<close>: flushed after an overflow (the fill size has gone above \<^verbatim>\<open>MAX_DATA_SIZE\<close>, by at
  most the \<open>bound\<close> bytes of the record), the exchange for the invalid tag failed, the
  record invalidated, or its pointer action recorded.
\<close>

definition outcome ::
    "ColumnMapContext \<Rightarrow> nat \<Rightarrow> nat \<Rightarrow> newest_ptr \<Rightarrow> 64 word \<Rightarrow> nat \<Rightarrow> ('d::zero) modifier \<Rightarrow>
       nat \<Rightarrow> 'd modifier \<Rightarrow> bool" where
  "outcome ctx page i nw k bound s0 i' s' =
     ((\<exists>s3. keepsSource s0 s3 \<and> i' = i \<and> s' = flush ctx s3 \<and>
            MAX_DATA_SIZE ctx < mFillSize s3 \<and> mFillSize s3 \<le> mFillSize s0 + bound) \<or>
      (\<exists>st4. keepsSource s0 st4 \<and>
         ((loadNewest (page, i) (interfere st4) \<noteq> nw \<and> i' = i \<and> s' = interfere st4) \<or>
          (loadNewest (page, i) (interfere st4) = nw \<and> i < i' \<and>
           s' = invalidated page i k st4) \<or>
          (i < i' \<and> recorded (page, i) nw k st4 s'))))"

lemma outcome_shift:
  assumes k: "keepsSource s0 s1" and sz: "mFillSize s1 + b1 \<le> mFillSize s0 + b0"
    and o: "outcome ctx page i nw k b1 s1 i' s'"
  shows "outcome ctx page i nw k b0 s0 i' s'"
proof -
  have t: "keepsSource s1 x \<Longrightarrow> keepsSource s0 x" for x
    using k by (rule keepsSource_trans)
  have u: "mFillSize x \<le> mFillSize s1 + b1 \<Longrightarrow> mFillSize x \<le> mFillSize s0 + b0" for x :: "'a modifier"
    using sz by simp
  from o show ?thesis unfolding outcome_def using t u by blast
qed

lemma copyPhase_outcome:
  assumes r: "copyPhase ctx src page i nw j wd ms me st = (i', ms', me', st')"
    and i: "i < count src" and j: "i \<le> j"
  shows "outcome ctx page i nw (key (entryData src i))
           (runSize ctx src (key (entryData src i)) j) st i' st'"
proof -
  obtain ov i1 ce wd1 st1 where c: "copyLoop ctx src i j j j wd st = (ov, i1, ce, wd1, st1)"
    by (cases "copyLoop ctx src i j j j wd st") auto
  from keepsSource_copyLoop [OF c] have k1: "keepsSource st st1" .
  from copyLoop_index [OF c] j have i1: "i \<le> i1" by simp
  from skipKey_past [OF i i1] have past: "i < skipKey src (key (entryData src i)) i1" .
  show ?thesis
  proof (cases ov)
    case True
    obtain a b s3 where f: "flushPendingMain page ms me st1 = (a, b, s3)"
      by (cases "flushPendingMain page ms me st1") auto
    from keepsSource_trans [OF k1 keepsSource_flushPendingMain [OF f]]
    have "keepsSource st s3" .
    moreover from r c True f have "i' = i" "st' = flush ctx s3"
      by (simp_all add: copyPhase_def)
    moreover from copyLoop_size [OF c] True mFillSize_flushPendingMain [OF f]
    have "MAX_DATA_SIZE ctx < mFillSize s3"
      "mFillSize s3 \<le> mFillSize st + runSize ctx src (key (entryData src i)) j"
      by simp_all
    ultimately show ?thesis unfolding outcome_def by blast
  next
    case False
    with r c have p: "publishCopy src page i nw j ce i1 ms me st1 = (i', ms', me', st')"
      by (simp add: copyPhase_def)
    from publishCopy_outcome [OF p] past k1 show ?thesis
      unfolding outcome_def by blast
  qed
qed

lemma clean_record_outcome:
  assumes r: "clean_record ctx updates src page i nw ms me s0 = (i', ms', me', s')"
    and i: "i < count src"
  shows "outcome ctx page i nw (key (entryData src i)) (recordSize ctx updates src nw i) s0 i' s'"
proof (cases "nw = NullPtr")
  case True
  with r have "copyPhase ctx src page i nw i False ms me s0 = (i', ms', me', s')"
    by (simp add: clean_record_def)
  from outcome_shift [OF keepsSource_refl _ copyPhase_outcome [OF this i]] show ?thesis
    by (simp add: recordSize_def)
next
  case False
  let ?k = "key (entryData src i)"
  let ?u = "sum_list (map (updateSize ctx) (updates nw))"
  obtain a b s1 where f: "flushPendingMain page ms me s0 = (a, b, s1)"
    by (cases "flushPendingMain page ms me s0") auto
  obtain ok lowest wd s2 where p:
    "processUpdates ctx updates nw (version (entryData src i)) False s1 = (ok, lowest, wd, s2)"
    by (cases "processUpdates ctx updates nw (version (entryData src i)) False s1") auto
  from keepsSource_trans [OF keepsSource_flushPendingMain [OF f] keepsSource_processUpdates [OF p]]
  have k2: "keepsSource s0 s2" .
  from processUpdatesLoop_size [OF p [unfolded processUpdates_def]] mFillSize_flushPendingMain [OF f]
  have sz: "mFillSize s2 \<le> mFillSize s0 + ?u" "\<not> ok \<longrightarrow> MAX_DATA_SIZE ctx < mFillSize s2"
    by (simp_all add: UpdateRecordIterator_init_def)
  from skipKey_past [OF i, of "i + 1"] have past: "i < skipKey src ?k (i + 1)" by simp
  show ?thesis
  proof (cases ok)
    case nok: False
    obtain a' b' s3 where f': "flushPendingMain page a b s2 = (a', b', s3)"
      by (cases "flushPendingMain page a b s2") auto
    from keepsSource_trans [OF k2 keepsSource_flushPendingMain [OF f']]
    have "keepsSource s0 s3" .
    moreover from r False f p nok f' have "i' = i" "s' = flush ctx s3"
      by (simp_all add: clean_record_def)
    moreover from sz nok mFillSize_flushPendingMain [OF f']
    have "MAX_DATA_SIZE ctx < mFillSize s3"
      "mFillSize s3 \<le> mFillSize s0 + recordSize ctx updates src nw i"
      by (simp_all add: recordSize_def)
    ultimately show ?thesis unfolding outcome_def by blast
  next
    case ok: True
    show ?thesis
    proof (cases "the lowest \<le> mMinVersion s2")
      case low: True
      show ?thesis
      proof (cases "mUpdateIdx s2 = mUpdateEndIdx s2")
        case True
        with r False f p ok low past k2 show ?thesis
          unfolding outcome_def
          by (auto simp: clean_record_def invalidateRecord_eq split: if_splits)
      next
        case ne: False
        let ?s3 = "enqueuePointerAction src page i nw s2"
        from r False f p ok low ne
        have e: "i' = skipKey src ?k (i + 1)"
          "s' = ?s3\<lparr>mUpdateEndIdx := mUpdateIdx ?s3, mFillEndIdx := mFillIdx ?s3\<rparr>"
          by (simp_all add: clean_record_def Let_def)
        have "recorded (page, i) nw ?k s2 s'"
          unfolding e by (simp add: recorded_def enqueuePointerAction_def Let_def)
        with e(1) past k2 show ?thesis unfolding outcome_def by blast
      qed
    next
      case high: False
      with r False f p ok
      have c: "copyPhase ctx src page i nw (skipAbove src ?k (the lowest) i) wd a b s2 =
          (i', ms', me', s')"
        by (simp add: clean_record_def)
      have "mFillSize s2 + runSize ctx src ?k (skipAbove src ?k (the lowest) i)
              \<le> mFillSize s0 + recordSize ctx updates src nw i"
        using sz(1) skipAbove_runSize [of ctx src ?k "the lowest" i]
        by (simp add: recordSize_def)
      from outcome_shift [OF k2 this copyPhase_outcome [OF c i skipAbove_ge]]
      show ?thesis .
    qed
  qed
qed

subsection \<open>A record that leaves nothing behind\<close>

text \<open>
  C4. Take any iteration of the loop of \<^verbatim>\<open>clean(page)\<close>: the one that follows \<open>k\<close> iterations,
  at row \<open>i\<close>, where \<^verbatim>\<open>newest.load()\<close> gives \<open>nw\<close>. It writes nothing for its record in
  three cases: the update chain ends with a lowest version at or below \<open>minVersion\<close> and
  the update index where it was (lines 113 to 126); the update chain is processed and
  the copy loop that follows leaves the fill index where it was; there is no update
  chain and the copy loop leaves the fill index where it was (lines 212 to 221). Let
  \<open>st4\<close> be the modifier at that point. Then \<^verbatim>\<open>clean\<close> continues as follows. The record's
  \<^verbatim>\<open>newest\<close> is exchanged for the invalid tag, expecting \<open>nw\<close>, the head loaded at the start
  of the iteration. If the word still is \<open>nw\<close> after the writers' stores that precede the
  exchange, it becomes the invalid tag, the key leaves the hash table and the loop goes
  on at the next key. If not, only the writers' stores have changed the modifier and
  the loop goes on at row \<open>i\<close> again: the next iteration is the whole of
  \<open>clean_record\<close> for the same record, with the word that \<^verbatim>\<open>newest.load()\<close> gives then.
\<close>

theorem clean_invalidates_or_restarts:
  fixes st :: "('d::zero) modifier" and page :: nat
  defines "src \<equiv> pages st page"
  assumes nc: "needsCleaning page st"
    and it: "clean_iterations k ctx updates src page (0, 0, 0, st) = (i, ms, me, s)"
    and i: "i < count src"
    and ld: "atomicLoad (page, i) s = (nw, s0)"
    and unwritten:
      "(nw \<noteq> NullPtr \<and> flushPendingMain page ms me s0 = (ms1, me1, s1) \<and>
        processUpdates ctx updates nw (version (entryData src i)) False s1 =
          (True, Some lv, wd, st4) \<and>
        lv \<le> mMinVersion st4 \<and> mUpdateIdx st4 = mUpdateEndIdx st4 \<and> i1 = i + 1) \<or>
       (nw \<noteq> NullPtr \<and> flushPendingMain page ms me s0 = (ms1, me1, s1) \<and>
        processUpdates ctx updates nw (version (entryData src i)) False s1 =
          (True, Some lv, wd, s2) \<and>
        \<not> lv \<le> mMinVersion s2 \<and> j = skipAbove src (key (entryData src i)) lv i \<and>
        copyLoop ctx src i j j j wd s2 = (False, i1, ce, wd1, st4) \<and>
        mFillIdx st4 = mFillEndIdx st4) \<or>
       (nw = NullPtr \<and> ms1 = ms \<and> me1 = me \<and>
        copyLoop ctx src i i i i False s0 = (False, i1, ce, wd1, st4) \<and>
        mFillIdx st4 = mFillEndIdx st4)"
  shows "clean (k + Suc n) ctx updates page st =
           clean_end page
             (if loadNewest (page, i) (interfere st4) = nw
              then clean_loop n ctx updates src page (skipKey src (key (entryData src i)) i1)
                     ms1 me1 (invalidated page i (key (entryData src i)) st4)
              else clean_loop n ctx updates src page i ms1 me1 (interfere st4)) \<and>
         loadNewest (page, i) (invalidated page i (key (entryData src i)) st4) = InvalidTag \<and>
         mainTable (invalidated page i (key (entryData src i)) st4) (key (entryData src i)) = None \<and>
         (loadNewest (page, i) (interfere st4) \<noteq> nw \<longrightarrow>
          clean (k + Suc (Suc n)) ctx updates page st =
            clean_end page
              (case clean_record ctx updates src page i
                      (loadNewest (page, i) (interfere (interfere st4))) ms1 me1
                      (interfere (interfere st4)) of
                 (i', ms', me', s') \<Rightarrow> clean_loop n ctx updates src page i' ms' me' s'))"
proof -
  let ?k = "key (entryData src i)"
  let ?ok = "loadNewest (page, i) (interfere st4) = nw"
  have rec: "clean_record ctx updates src page i nw ms me s0 =
      (if ?ok then (skipKey src ?k i1, ms1, me1, invalidated page i ?k st4)
       else (i, ms1, me1, interfere st4))"
    using unwritten
    by (elim disjE conjE)
       (simp_all add: clean_record_def copyPhase_def publishCopy_def invalidateRecord_eq)
  have step: "clean_step ctx updates src page i ms me s =
      (if ?ok then (skipKey src ?k i1, ms1, me1, invalidated page i ?k st4)
       else (i, ms1, me1, interfere st4))"
    using ld rec by (simp add: clean_step_def)
  have run: "clean (k + m) ctx updates page st =
      clean_end page (clean_loop m ctx updates src page i ms me s)" for m
    using clean_iterated [OF nc it [unfolded src_def], of m] by (simp add: src_def)
  have a: "clean (k + Suc n) ctx updates page st =
           clean_end page
             (if ?ok
              then clean_loop n ctx updates src page (skipKey src ?k i1)
                     ms1 me1 (invalidated page i ?k st4)
              else clean_loop n ctx updates src page i ms1 me1 (interfere st4))"
    unfolding run using i step by simp
  have c: "clean (k + Suc (Suc n)) ctx updates page st =
            clean_end page
              (case clean_record ctx updates src page i
                      (loadNewest (page, i) (interfere (interfere st4))) ms1 me1
                      (interfere (interfere st4)) of
                 (i', ms', me', s') \<Rightarrow> clean_loop n ctx updates src page i' ms' me' s')"
    if "\<not> ?ok"
    unfolding run using i step that by (simp add: clean_step_def atomicLoad_def Let_def)
  from a c invalidated_facts [of page i ?k st4] show ?thesis by blast
qed

text \<open>
  An example: the record of key 3 has data at version 2 and, as its pending update, a
  delete at version 12; the low-water mark is 6. The delete is written and dropped again
  at version 2, so nothing is left. Before the exchange a writer installs the head 8
  (data at version 14 above the delete), the exchange fails, and the second iteration
  works on the chain of 8: it keeps version 14 and records a pointer action that
  expects 8.
\<close>

definition example_tomb_page :: "nat ColumnMapMainPage" where
  "example_tomb_page =
     \<lparr>count = 1,
      entryData = (\<lambda>j. \<lparr>key = 3, version = 2, newest = UpdatePtr 7\<rparr>),
      sizeData = (\<lambda>j. 20),
      recordData = (\<lambda>j. 302)\<rparr>"

definition example_tomb_updates :: "newest_ptr \<Rightarrow> nat UpdateLogEntry list" where
  "example_tomb_updates p =
     (if p = UpdatePtr 7 then
        [\<lparr>logType = DELETE, logKey = 3, logVersion = 12, dataSize = 0, logData = 0\<rparr>]
      else if p = UpdatePtr 8 then
        [\<lparr>logType = DATA, logKey = 3, logVersion = 14, dataSize = 30, logData = 314\<rparr>,
         \<lparr>logType = DELETE, logKey = 3, logVersion = 12, dataSize = 0, logData = 0\<rparr>]
      else [])"

definition example_tomb :: "nat modifier" where
  "example_tomb =
     ColumnMapPageModifier_init example_ctx (\<lambda>_. example_tomb_page) 1 [3 \<mapsto> (0, 0)]
       [[], [((0, 0), UpdatePtr 8)]] 6"

theorem clean_invalidates_or_restarts_witness:
  "needsCleaning 0 example_tomb \<and>
   (case atomicLoad (0, 0) example_tomb of
      (nw, s0) \<Rightarrow>
        nw = UpdatePtr 7 \<and>
        (case processUpdates example_ctx example_tomb_updates nw 2 False s0 of
           (ok, lv, wd, s2) \<Rightarrow>
             ok \<and> lv = Some 12 \<and> wd \<and> \<not> 12 \<le> mMinVersion s2 \<and>
             (case copyLoop example_ctx example_tomb_page 0 0 0 0 wd s2 of
                (overflow, i1, ce, wd1, st4) \<Rightarrow>
                  \<not> overflow \<and> i1 = 0 \<and> mFillIdx st4 = mFillEndIdx st4 \<and>
                  loadNewest (0, 0) (interfere st4) = UpdatePtr 8 \<and>
                  clean 1 example_ctx example_tomb_updates 0 example_tomb = None \<and>
                  clean 2 example_ctx example_tomb_updates 0 example_tomb =
                    clean_end 0
                      (case clean_record example_ctx example_tomb_updates example_tomb_page 0 0
                              (UpdatePtr 8) 0 0 (interfere (interfere st4)) of
                         (i', ms', me', s') \<Rightarrow>
                           clean_loop 0 example_ctx example_tomb_updates example_tomb_page 0
                             i' ms' me' s')))) \<and>
   map_option (\<lambda>r. map expected (mPointerActions (snd r)))
     (clean 2 example_ctx example_tomb_updates 0 example_tomb) = Some [UpdatePtr 8]"
proof -
  let ?s0 = "snd (atomicLoad (0, 0) example_tomb)"
  let ?P = "processUpdates example_ctx example_tomb_updates (UpdatePtr 7) 2 False ?s0"
  let ?s2 = "snd (snd (snd ?P))"
  let ?C = "copyLoop example_ctx example_tomb_page 0 0 0 0 True ?s2"
  let ?st4 = "snd (snd (snd (snd ?C)))"
  have nc: "needsCleaning 0 example_tomb" by code_simp
  have src: "pages example_tomb 0 = example_tomb_page"
    by (simp add: example_tomb_def ColumnMapPageModifier_init_def)
  have "fst (atomicLoad (0, 0) example_tomb) = UpdatePtr 7" by code_simp
  then have ld: "atomicLoad (0, 0) example_tomb = (UpdatePtr 7, ?s0)"
    by (simp add: prod_eq_iff)
  have "fst ?P = True" "fst (snd ?P) = Some 12" "fst (snd (snd ?P)) = True" by code_simp+
  then have p: "?P = (True, Some 12, True, ?s2)"
    by (simp add: prod_eq_iff)
  have m: "\<not> 12 \<le> mMinVersion ?s2" by code_simp
  have j: "skipAbove example_tomb_page 3 12 0 = 0" by code_simp
  have "fst ?C = False" "fst (snd ?C) = 0" "fst (snd (snd ?C)) = 0"
    "fst (snd (snd (snd ?C))) = False" by code_simp+
  then have c: "?C = (False, 0, 0, False, ?st4)"
    by (simp add: prod_eq_iff)
  have e: "mFillIdx ?st4 = mFillEndIdx ?st4" by code_simp
  have l: "loadNewest (0, 0) (interfere ?st4) = UpdatePtr 8" by code_simp
  have it: "clean_iterations 0 example_ctx example_tomb_updates (pages example_tomb 0) 0
      (0, 0, 0, example_tomb) = (0, 0, 0, example_tomb)"
    by (simp add: clean_iterations_def)
  have i: "0 < count (pages example_tomb 0)"
    by (simp add: src example_tomb_page_def)
  have kv: "key (entryData example_tomb_page 0) = 3" "version (entryData example_tomb_page 0) = 2"
    by (simp_all add: example_tomb_page_def)
  have u: "(UpdatePtr 7 \<noteq> NullPtr \<and> flushPendingMain 0 0 0 ?s0 = (0, 0, ?s0) \<and>
        processUpdates example_ctx example_tomb_updates (UpdatePtr 7)
          (version (entryData (pages example_tomb 0) 0)) False ?s0 =
          (True, Some 12, True, ?st4) \<and>
        12 \<le> mMinVersion ?st4 \<and> mUpdateIdx ?st4 = mUpdateEndIdx ?st4 \<and> 0 = 0 + 1) \<or>
       (UpdatePtr 7 \<noteq> NullPtr \<and> flushPendingMain 0 0 0 ?s0 = (0, 0, ?s0) \<and>
        processUpdates example_ctx example_tomb_updates (UpdatePtr 7)
          (version (entryData (pages example_tomb 0) 0)) False ?s0 =
          (True, Some 12, True, ?s2) \<and>
        \<not> 12 \<le> mMinVersion ?s2 \<and>
        0 = skipAbove (pages example_tomb 0) (key (entryData (pages example_tomb 0) 0)) 12 0 \<and>
        copyLoop example_ctx (pages example_tomb 0) 0 0 0 0 True ?s2 = (False, 0, 0, False, ?st4) \<and>
        mFillIdx ?st4 = mFillEndIdx ?st4) \<or>
       (UpdatePtr 7 = NullPtr \<and> 0 = 0 \<and> 0 = 0 \<and>
        copyLoop example_ctx (pages example_tomb 0) 0 0 0 0 False ?s0 = (False, 0, 0, False, ?st4) \<and>
        mFillIdx ?st4 = mFillEndIdx ?st4)"
    using p m j c e by (simp add: src kv flushPendingMain_def)
  note t = clean_invalidates_or_restarts [OF nc it i ld u]
  from t [of 0, THEN conjunct1] l
  have r1: "clean 1 example_ctx example_tomb_updates 0 example_tomb = None"
    by (simp add: src example_tomb_page_def clean_end_def)
  from t [of 0, THEN conjunct2, THEN conjunct2, THEN conjunct2] l
  have r2: "clean 2 example_ctx example_tomb_updates 0 example_tomb =
      clean_end 0
        (case clean_record example_ctx example_tomb_updates example_tomb_page 0 0
                (UpdatePtr 8) 0 0 (interfere (interfere ?st4)) of
           (i', ms', me', s') \<Rightarrow>
             clean_loop 0 example_ctx example_tomb_updates example_tomb_page 0 i' ms' me' s')"
    proof -
      have l2: "loadNewest (0, 0) (interfere (interfere ?st4)) = UpdatePtr 8" by code_simp
      from t [of 0, THEN conjunct2, THEN conjunct2, THEN conjunct2] l l2 show ?thesis
        by (simp add: src numeral_2_eq_2)
    qed
  have r3: "map_option (\<lambda>r. map expected (mPointerActions (snd r)))
     (clean 2 example_ctx example_tomb_updates 0 example_tomb) = Some [UpdatePtr 8]"
    by code_simp
  define s0 where "s0 = ?s0"
  define s2 where "s2 = snd (snd (snd (processUpdates example_ctx example_tomb_updates
                                         (UpdatePtr 7) 2 False s0)))"
  define st4 where "st4 = snd (snd (snd (snd (copyLoop example_ctx example_tomb_page 0 0 0 0
                                                 True s2))))"
  note f = s0_def [symmetric] s2_def [symmetric] st4_def [symmetric]
  note ld' = ld [unfolded f] and p' = p [unfolded f] and m' = m [unfolded f]
    and c' = c [unfolded f] and e' = e [unfolded f] and l' = l [unfolded f]
    and r2' = r2 [unfolded f]
  show ?thesis
    unfolding ld' p' c' prod.case using nc m' e' l' r1 r2' r3 by blast
qed

subsection \<open>Recording and executing the pointer actions\<close>

lemma mPointerActions_copyCleanActions [simp]:
  "mPointerActions (copyCleanActions st) = mPointerActions st"
  by (simp add: copyCleanActions_def enqueueUpdates_def Let_def)

lemma mPageList_copyCleanActions [simp]:
  "mPageList (copyCleanActions st) = mPageList st @ [mFillPage st]"
  by (simp add: copyCleanActions_def enqueueUpdates_def Let_def)

lemma flushFillPage_eq:
  "flushFillPage st =
     (foldl (\<lambda>s a. adjustNewest a s) (copyCleanActions st) (mPointerActions st))
       \<lparr>mPointerActions := []\<rparr>"
  by (simp add: flushFillPage_def Let_def)

lemma mPageList_flushFillPage: "mPageList (flushFillPage st) = mPageList st @ [mFillPage st]"
  using newestOnly_publish [of "copyCleanActions st" "mPointerActions st"]
  by (simp add: flushFillPage_eq newestOnly_def)

lemma mPageList_flush: "mPageList (flush ctx st) = mPageList st @ [mFillPage st]"
  by (simp add: flush_def alloc_def Let_def mPageList_flushFillPage)

lemma untouched_drop: "untouched r xs \<Longrightarrow> untouched r (drop n xs)"
  by (auto simp: untouched_def dest: in_set_dropD)

lemma adjustNewest_other:
  "r \<noteq> ptr a \<Longrightarrow> r \<noteq> desired a \<Longrightarrow> untouched r (sched st) \<Longrightarrow>
   loadNewest r (adjustNewest a st) = loadNewest r st \<and> untouched r (sched (adjustNewest a st))"
proof (induction a st rule: adjustNewest.induct)
  case (1 action st)
  let ?st1 = "interfere st"
  let ?c = "loadNewest (ptr action) ?st1"
  from "1.prems"(3) have u1: "untouched r (sched ?st1)" by (simp add: untouched_tl)
  from "1.prems"(3) have l1: "loadNewest r ?st1 = loadNewest r st"
    by (rule loadNewest_interfere_untouched)
  show ?case
  proof (cases "?c = expected action")
    case True
    then have r: "adjustNewest action st = storeNewest (ptr action) (MainPtr (desired action)) ?st1"
      by (subst adjustNewest.simps)
         (simp add: atomicCAS_def compare_exchange_strong_def Let_def)
    from "1.prems"(1) u1 l1 show ?thesis by (simp add: r loadNewest_storeNewest)
  next
    case False
    let ?a' = "action\<lparr>expected := ?c\<rparr>"
    let ?st2 = "storeNewest (desired action) ?c ?st1"
    from False have r: "adjustNewest action st = adjustNewest ?a' ?st2"
      by (subst adjustNewest.simps)
         (simp add: atomicCAS_def compare_exchange_strong_def Let_def)
    from False have cas: "atomicCAS (ptr action) (expected action) (MainPtr (desired action)) st
        = (False, ?c, ?st1)"
      by (simp add: atomicCAS_def compare_exchange_strong_def Let_def)
    have nf: "\<not> False" by simp
    have p1: "r \<noteq> ptr ?a'" "r \<noteq> desired ?a'" using "1.prems"(1,2) by simp_all
    have p3: "untouched r (sched ?st2)" using u1 by simp
    from "1.IH" [OF cas [symmetric] refl nf p1 p3] "1.prems"(2) l1
    show ?thesis by (simp add: r loadNewest_storeNewest)
  qed
qed

lemma publish_other:
  "\<forall>a\<in>set acts. r \<noteq> ptr a \<and> r \<noteq> desired a \<Longrightarrow> untouched r (sched st) \<Longrightarrow>
   loadNewest r (foldl (\<lambda>s a. adjustNewest a s) st acts) = loadNewest r st"
proof (induction acts arbitrary: st)
  case Nil
  show ?case by simp
next
  case (Cons a acts)
  from Cons.prems have a: "r \<noteq> ptr a" "r \<noteq> desired a" by simp_all
  from adjustNewest_other [OF a Cons.prems(2)]
  have l: "loadNewest r (adjustNewest a st) = loadNewest r st"
    and u: "untouched r (sched (adjustNewest a st))" by simp_all
  from Cons.prems(1) have "\<forall>a\<in>set acts. r \<noteq> ptr a \<and> r \<noteq> desired a" by simp
  from Cons.IH [OF this u] l show ?case by simp
qed

lemma linked_append:
  "linked prev q (xs @ ys) = (linked prev q xs \<and> linked prev (last (q # xs)) ys)"
  by (induction xs arbitrary: q) auto

text \<open>The publish loop for one pointer action.\<close>

lemma adjustNewest_carries:
  assumes distinct: "ptr a \<noteq> desired a"
    and own: "untouched (desired a) (sched st)"
  defines "st' \<equiv> adjustNewest a st"
  defines "n \<equiv> length (sched st) - length (sched st')"
  defines "srcHead \<equiv> loadNewest (ptr a) ((interfere ^^ n) st)"
  defines "arrived \<equiv> writesTo (ptr a) (take n (sched st))"
  shows "loadNewest (ptr a) st' = MainPtr (desired a) \<and>
         loadNewest (desired a) st' =
           (if loadNewest (ptr a) (interfere st) = expected a then loadNewest (desired a) st
            else srcHead) \<and>
         (linked previousOf (expected a) (history @ arrived) \<and>
          last (expected a # history) = loadNewest (ptr a) st \<and>
          expected a \<notin> set (history @ arrived) \<longrightarrow>
            (\<forall>p\<in>set (history @ arrived).
               p \<in> set (followPrevious previousOf (length (history @ arrived))
                         (loadNewest (desired a) st'))))"
proof -
  from adjustNewest_result [OF distinct own]
  obtain k where k: "k \<ge> 1" "sched st' = drop k (sched st)"
    "loadNewest (ptr a) st' = MainPtr (desired a)"
    "(k = 1 \<and> loadNewest (ptr a) (interfere st) = expected a \<and>
       loadNewest (desired a) st' = loadNewest (desired a) st) \<or>
     (k > 1 \<and> loadNewest (ptr a) (interfere st) \<noteq> expected a \<and>
       loadNewest (desired a) st' = loadNewest (ptr a) ((interfere ^^ k) st))"
    unfolding st'_def by blast
  from k(2) have n: "n = min k (length (sched st))" by (simp add: n_def)
  have h: "srcHead = loadNewest (ptr a) ((interfere ^^ k) st)"
    unfolding srcHead_def n by (rule arg_cong [OF funpow_interfere_min [symmetric]])
  have second: "loadNewest (desired a) st' =
      (if loadNewest (ptr a) (interfere st) = expected a then loadNewest (desired a) st
       else srcHead)"
    using k(4) h by auto
  have third: "\<forall>p\<in>set (history @ arrived).
      p \<in> set (followPrevious previousOf (length (history @ arrived))
                (loadNewest (desired a) st'))"
    if l: "linked previousOf (expected a) (history @ arrived)"
      and s: "last (expected a # history) = loadNewest (ptr a) st"
      and f: "expected a \<notin> set (history @ arrived)"
  proof (cases "history @ arrived = []")
    case True
    then show ?thesis by simp
  next
    case False
    have "srcHead = last (loadNewest (ptr a) st # arrived)"
      unfolding srcHead_def arrived_def by (rule loadNewest_funpow_interfere)
    also have "\<dots> = last (expected a # (history @ arrived))"
      using s by (cases "arrived = []") (simp_all add: last_append)
    finally have hl: "srcHead = last (expected a # (history @ arrived))" .
    with False have "srcHead \<in> set (history @ arrived)"
      using last_in_set [OF False] by simp
    with f have ne: "srcHead \<noteq> expected a" by auto
    have "loadNewest (ptr a) (interfere st) \<noteq> expected a"
    proof
      assume e: "loadNewest (ptr a) (interfere st) = expected a"
      with k(4) have "k = 1" by auto
      with h have "srcHead = loadNewest (ptr a) (interfere st)" by simp
      with e ne show False by simp
    qed
    with second have "loadNewest (desired a) st' = last (expected a # (history @ arrived))"
      using hl by simp
    with linked_follow [OF l] show ?thesis by auto
  qed
  from k(3) second third show ?thesis by blast
qed

lemma newestOnly_fields:
  "newestOnly st st' \<Longrightarrow>
   mPointerActions st' = mPointerActions st \<and> mFillPage st' = mFillPage st \<and>
   mFillEndIdx st' = mFillEndIdx st \<and> mPageList st' = mPageList st \<and>
   mainTable st' = mainTable st"
  by (simp add: newestOnly_def)

lemma keepsSource_interfere:
  assumes k: "keepsSource s0 st4" and r: "fst r \<noteq> mFillPage s0"
  shows "loadNewest r (interfere st4) = loadNewest r (interfere s0)"
proof -
  from k r have "sched st4 = sched s0" "loadNewest r st4 = loadNewest r s0"
    unfolding keepsSource_def by blast+
  from interfere_agree [OF this] show ?thesis by simp
qed

lemma invalidated_fields:
  "mPointerActions (invalidated page i k st) = mPointerActions st \<and>
   mPageList (invalidated page i k st) = mPageList st \<and>
   (r \<noteq> (page, i) \<longrightarrow> loadNewest r (invalidated page i k st) = loadNewest r (interfere st))"
  using newestOnly_interfere [of st]
  by (cases r) (auto simp: invalidated_def storeNewest_def newestOnly_def loadNewest_def)

lemma outcome_step:
  assumes o: "outcome ctx page i nw k b (interfere s) i' s'"
  shows "(i < i' \<longrightarrow>
            (loadNewest (page, i) s' = InvalidTag \<and> mainTable s' k = None \<and>
             mPointerActions s' = mPointerActions s) \<or>
            (mPointerActions s' = mPointerActions s @
               [\<lparr>ptr = (page, i), expected = nw, desired = (mFillPage s, mFillEndIdx s)\<rparr>] \<and>
             mainTable s' k = Some (mFillPage s, mFillEndIdx s) \<and>
             sched s' = tl (sched s))) \<and>
         (\<not> i < i' \<longrightarrow>
            i' = i \<and>
            (mPointerActions s' = mPointerActions s \<or>
             (\<exists>s3. mPointerActions s3 = mPointerActions s \<and> s' = flush ctx s3))) \<and>
         (mPageList s' = mPageList s \<longrightarrow>
            (\<exists>n. sched s' = drop n (sched s) \<and>
               (\<forall>r. fst r \<noteq> mFillPage s \<longrightarrow>
                  loadNewest r s' = loadNewest r ((interfere ^^ n) s) \<or>
                  r = (page, i) \<and> loadNewest r s' = InvalidTag)))"
proof -
  let ?s0 = "interfere s"
  note n0 = newestOnly_fields [OF newestOnly_interfere [of s]]
  from o consider
      (flushed) s3 where "keepsSource ?s0 s3" "i' = i" "s' = flush ctx s3"
    | (failed) st4 where "keepsSource ?s0 st4" "i' = i" "s' = interfere st4"
    | (invalid) st4 where "keepsSource ?s0 st4" "i < i'" "s' = invalidated page i k st4"
    | (kept) st4 where "keepsSource ?s0 st4" "i < i'" "recorded (page, i) nw k st4 s'"
    unfolding outcome_def by blast
  then show ?thesis
  proof cases
    case flushed
    from flushed(1) n0 have "mPageList s3 = mPageList s" "mPointerActions s3 = mPointerActions s"
      by (simp_all add: keepsSource_def)
    with flushed(2,3) show ?thesis by (auto simp: mPageList_flush)
  next
    case failed
    have "\<forall>r. fst r \<noteq> mFillPage s \<longrightarrow>
        loadNewest r s' = loadNewest r ((interfere ^^ Suc (Suc 0)) s)"
      using keepsSource_interfere [OF failed(1)] n0 failed(3) by simp
    moreover from failed(1,3) have "sched s' = drop (Suc (Suc 0)) (sched s)"
      by (simp add: keepsSource_def drop_Suc)
    moreover from failed(1,3) n0 newestOnly_fields [OF newestOnly_interfere [of st4]]
    have "mPointerActions s' = mPointerActions s" by (simp add: keepsSource_def)
    ultimately show ?thesis using failed(2) by blast
  next
    case invalid
    from invalid(1) n0 have e: "mPointerActions st4 = mPointerActions s"
      by (simp add: keepsSource_def)
    have a: "loadNewest (page, i) s' = InvalidTag \<and> mainTable s' k = None \<and>
             mPointerActions s' = mPointerActions s"
      using invalidated_facts [of page i k st4] invalidated_fields [of page i k st4] e invalid(3)
      by simp
    have "\<forall>r. fst r \<noteq> mFillPage s \<longrightarrow>
        loadNewest r s' = loadNewest r ((interfere ^^ Suc (Suc 0)) s) \<or>
        r = (page, i) \<and> loadNewest r s' = InvalidTag"
    proof (intro allI impI)
      fix r :: "nat \<times> nat"
      assume f: "fst r \<noteq> mFillPage s"
      show "loadNewest r s' = loadNewest r ((interfere ^^ Suc (Suc 0)) s) \<or>
            r = (page, i) \<and> loadNewest r s' = InvalidTag"
      proof (cases "r = (page, i)")
        case True
        with a show ?thesis by simp
      next
        case False
        with invalidated_fields [of page i k st4 r] invalid(3)
        have "loadNewest r s' = loadNewest r (interfere st4)" by simp
        with keepsSource_interfere [OF invalid(1), of r] f n0 show ?thesis by simp
      qed
    qed
    moreover from invalid(1,3) invalidated_facts [of page i k st4]
    have "sched s' = drop (Suc (Suc 0)) (sched s)"
      by (simp add: keepsSource_def drop_Suc)
    ultimately show ?thesis using a invalid(2) by blast
  next
    case kept
    from kept(1) n0 have e: "mPointerActions st4 = mPointerActions s" "mFillPage st4 = mFillPage s"
      "mFillEndIdx st4 = mFillEndIdx s" "sched st4 = tl (sched s)"
      by (simp_all add: keepsSource_def)
    from kept(3) e have a: "mPointerActions s' = mPointerActions s @
               [\<lparr>ptr = (page, i), expected = nw, desired = (mFillPage s, mFillEndIdx s)\<rparr>] \<and>
             mainTable s' k = Some (mFillPage s, mFillEndIdx s) \<and>
             sched s' = tl (sched s)"
      by (simp add: recorded_def)
    have "\<forall>r. fst r \<noteq> mFillPage s \<longrightarrow>
        loadNewest r s' = loadNewest r ((interfere ^^ Suc 0) s)"
      using kept(1,3) n0 by (simp add: keepsSource_def recorded_def loadNewest_def)
    moreover from a have "sched s' = drop (Suc 0) (sched s)" by (simp add: drop_Suc)
    ultimately show ?thesis using a kept(2) by blast
  qed
qed

lemma clean_iterations_Suc:
  assumes "clean_iterations k ctx updates src page x = (i, ms, me, s)" and "i < count src"
  shows "clean_iterations (Suc k) ctx updates src page x =
           clean_record ctx updates src page i (loadNewest (page, i) (interfere s)) ms me
             (interfere s)"
  using assms
  by (simp add: clean_iterations_def loop_body_def clean_step_def atomicLoad_def Let_def)

lemma publish_Suc:
  "m < length acts \<Longrightarrow>
   foldl (\<lambda>s a. adjustNewest a s) st (take (Suc m) acts) =
     adjustNewest (acts ! m) (foldl (\<lambda>s a. adjustNewest a s) st (take m acts))"
  by (simp add: take_Suc_conv_app_nth)

lemma publish_rest:
  "foldl (\<lambda>s a. adjustNewest a s) st acts =
     foldl (\<lambda>s a. adjustNewest a s) (foldl (\<lambda>s a. adjustNewest a s) st (take m acts)) (drop m acts)"
  by (simp flip: foldl_append)

lemma loadNewest_mPointerActions_update [simp]:
  "loadNewest r (st\<lparr>mPointerActions := x\<rparr>) = loadNewest r st"
  by (simp add: loadNewest_def)

text \<open>
  C1. The pointer actions are recorded by the iterations of the loop of
  \<^verbatim>\<open>clean(page)\<close>, and executed by \<^verbatim>\<open>flushFillPage\<close>.

  Recording. \<^verbatim>\<open>clean\<close> is its loop, iteration after iteration. Take the iteration that
  follows \<open>k\<close> iterations, at row \<open>i\<close>, from the modifier \<open>s\<close> to \<open>s'\<close>. If it is not done with
  its record, it ends at row \<open>i\<close> again, with the pointer actions as they were or
  after a \<^verbatim>\<open>flush\<close>, which executes them. If it is done with its record (\<open>i < i'\<close>), it has either
  invalidated the record, or it has appended one pointer action: for the record's
  \<^verbatim>\<open>newest\<close>, expecting the head that \<^verbatim>\<open>newest.load()\<close> gave at the start of the iteration,
  with the first row written for the record as the new main entry, which the hash table
  has for the key. If the iteration has not flushed the fill page (the page list is as
  it was), every \<^verbatim>\<open>newest\<close> outside the fill page is what the writers' stores of the
  batches the iteration consumed have made it, but for an invalidated record's: between
  the recording of an action and the flush, only writers store to the source record.

  Execution. \<^verbatim>\<open>flushFillPage\<close> runs the publish loop for every recorded action, in order
  (\<open>publish j\<close> is the modifier after the first \<open>j\<close> actions). For the action \<open>a\<close> at
  position \<open>m\<close>, whose new main entry is not the source record itself and is not written
  by the writers: the loop ends for every schedule of the writers, with the source
  record's \<^verbatim>\<open>newest\<close> pointing to the new main entry tagged Main. If the first exchange
  succeeds, the new entry's \<^verbatim>\<open>newest\<close> is left as it is; otherwise it holds \<open>srcHead\<close>,
  the head the source record had when the exchange succeeded, which the loop stored
  after the last failed exchange. With writers that link each new entry to the head it
  replaces and never install the expected head again: the heads installed since the
  compactor loaded the expected head, before the loop (\<open>history\<close>) and while it runs
  (\<open>arrived\<close>), are all on the chain of the new entry's \<^verbatim>\<open>newest\<close>. A word that no later
  action and no later store of the writers touches is at the end of \<^verbatim>\<open>flushFillPage\<close>
  what it was when its action's loop ended.
\<close>

theorem flushFillPage_carries_heads:
  fixes st f :: "('d::zero) modifier" and page m :: nat
  defines "src \<equiv> pages st page"
  defines "acts \<equiv> mPointerActions f"
  defines "publish \<equiv> \<lambda>j. foldl (\<lambda>s a. adjustNewest a s) (copyCleanActions f) (take j acts)"
  defines "a \<equiv> acts ! m"
  defines "consumed \<equiv> length (sched (publish m)) - length (sched (publish (Suc m)))"
  defines "srcHead \<equiv> loadNewest (ptr a) ((interfere ^^ consumed) (publish m))"
  defines "arrived \<equiv> writesTo (ptr a) (take consumed (sched (publish m)))"
  shows
    "(needsCleaning page st \<longrightarrow>
        clean (k + n) ctx updates page st =
          clean_end page
            (case clean_iterations k ctx updates src page (0, 0, 0, st) of
               (i, ms, me, s) \<Rightarrow> clean_loop n ctx updates src page i ms me s)) \<and>
     (clean_iterations k ctx updates src page (0, 0, 0, st) = (i, ms, me, s) \<and> i < count src \<and>
      clean_iterations (Suc k) ctx updates src page (0, 0, 0, st) = (i', ms', me', s') \<longrightarrow>
        (i < i' \<longrightarrow>
           (loadNewest (page, i) s' = InvalidTag \<and> mainTable s' (key (entryData src i)) = None \<and>
            mPointerActions s' = mPointerActions s) \<or>
           (mPointerActions s' = mPointerActions s @
              [\<lparr>ptr = (page, i), expected = loadNewest (page, i) (interfere s),
                desired = (mFillPage s, mFillEndIdx s)\<rparr>] \<and>
            mainTable s' (key (entryData src i)) = Some (mFillPage s, mFillEndIdx s) \<and>
            sched s' = tl (sched s))) \<and>
        (\<not> i < i' \<longrightarrow>
           i' = i \<and>
           (mPointerActions s' = mPointerActions s \<or>
            (\<exists>s3. mPointerActions s3 = mPointerActions s \<and> s' = flush ctx s3))) \<and>
        (mPageList s' = mPageList s \<longrightarrow>
           (\<exists>n. sched s' = drop n (sched s) \<and>
              (\<forall>r. fst r \<noteq> mFillPage s \<longrightarrow>
                 loadNewest r s' = loadNewest r ((interfere ^^ n) s) \<or>
                 r = (page, i) \<and> loadNewest r s' = InvalidTag)))) \<and>
     flushFillPage f = (publish (length acts))\<lparr>mPointerActions := []\<rparr> \<and>
     (m < length acts \<longrightarrow> publish (Suc m) = adjustNewest a (publish m)) \<and>
     (m < length acts \<and> ptr a \<noteq> desired a \<and> untouched (desired a) (sched (publish m)) \<longrightarrow>
        loadNewest (ptr a) (publish (Suc m)) = MainPtr (desired a) \<and>
        loadNewest (desired a) (publish (Suc m)) =
          (if loadNewest (ptr a) (interfere (publish m)) = expected a
           then loadNewest (desired a) (publish m) else srcHead) \<and>
        (linked previousOf (expected a) (history @ arrived) \<and>
         last (expected a # history) = loadNewest (ptr a) (publish m) \<and>
         expected a \<notin> set (history @ arrived) \<longrightarrow>
           (\<forall>p\<in>set (history @ arrived).
              p \<in> set (followPrevious previousOf (length (history @ arrived))
                        (loadNewest (desired a) (publish (Suc m))))))) \<and>
     (m < length acts \<and>
      (\<forall>m'. m < m' \<and> m' < length acts \<longrightarrow> ptr (acts ! m') \<noteq> r' \<and> desired (acts ! m') \<noteq> r') \<and>
      untouched r' (sched (publish (Suc m))) \<longrightarrow>
        loadNewest r' (flushFillPage f) = loadNewest r' (publish (Suc m)))"
proof -
  have zero: "clean (k + n) ctx updates page st =
          clean_end page
            (case clean_iterations k ctx updates src page (0, 0, 0, st) of
               (i, ms, me, s) \<Rightarrow> clean_loop n ctx updates src page i ms me s)"
    if "needsCleaning page st"
    using that by (simp add: clean_def clean_loop_iterations src_def)
  have one: "(i < i' \<longrightarrow>
           (loadNewest (page, i) s' = InvalidTag \<and> mainTable s' (key (entryData src i)) = None \<and>
            mPointerActions s' = mPointerActions s) \<or>
           (mPointerActions s' = mPointerActions s @
              [\<lparr>ptr = (page, i), expected = loadNewest (page, i) (interfere s),
                desired = (mFillPage s, mFillEndIdx s)\<rparr>] \<and>
            mainTable s' (key (entryData src i)) = Some (mFillPage s, mFillEndIdx s) \<and>
            sched s' = tl (sched s))) \<and>
        (\<not> i < i' \<longrightarrow>
           i' = i \<and>
           (mPointerActions s' = mPointerActions s \<or>
            (\<exists>s3. mPointerActions s3 = mPointerActions s \<and> s' = flush ctx s3))) \<and>
        (mPageList s' = mPageList s \<longrightarrow>
           (\<exists>n. sched s' = drop n (sched s) \<and>
              (\<forall>r. fst r \<noteq> mFillPage s \<longrightarrow>
                 loadNewest r s' = loadNewest r ((interfere ^^ n) s) \<or>
                 r = (page, i) \<and> loadNewest r s' = InvalidTag)))"
    if it: "clean_iterations k ctx updates src page (0, 0, 0, st) = (i, ms, me, s)"
      and i: "i < count src"
      and nx: "clean_iterations (Suc k) ctx updates src page (0, 0, 0, st) = (i', ms', me', s')"
  proof -
    from clean_iterations_Suc [OF it i] nx
    have "clean_record ctx updates src page i (loadNewest (page, i) (interfere s)) ms me
            (interfere s) = (i', ms', me', s')" by simp
    from outcome_step [OF clean_record_outcome [OF this i]] show ?thesis .
  qed
  have two: "flushFillPage f = (publish (length acts))\<lparr>mPointerActions := []\<rparr>"
    by (simp add: publish_def acts_def flushFillPage_eq)
  have three: "publish (Suc m) = adjustNewest a (publish m)" if "m < length acts"
    unfolding publish_def a_def by (rule publish_Suc [OF that])
  have four: "loadNewest (ptr a) (publish (Suc m)) = MainPtr (desired a) \<and>
        loadNewest (desired a) (publish (Suc m)) =
          (if loadNewest (ptr a) (interfere (publish m)) = expected a
           then loadNewest (desired a) (publish m) else srcHead) \<and>
        (linked previousOf (expected a) (history @ arrived) \<and>
         last (expected a # history) = loadNewest (ptr a) (publish m) \<and>
         expected a \<notin> set (history @ arrived) \<longrightarrow>
           (\<forall>p\<in>set (history @ arrived).
              p \<in> set (followPrevious previousOf (length (history @ arrived))
                        (loadNewest (desired a) (publish (Suc m))))))"
    if m: "m < length acts" and d: "ptr a \<noteq> desired a"
      and u: "untouched (desired a) (sched (publish m))"
    unfolding srcHead_def arrived_def consumed_def three [OF m]
    by (rule adjustNewest_carries [OF d u])
  have five: "loadNewest r' (flushFillPage f) = loadNewest r' (publish (Suc m))"
    if m: "m < length acts"
      and o: "\<forall>m'. m < m' \<and> m' < length acts \<longrightarrow> ptr (acts ! m') \<noteq> r' \<and> desired (acts ! m') \<noteq> r'"
      and u: "untouched r' (sched (publish (Suc m)))"
  proof -
    have "\<forall>b\<in>set (drop (Suc m) acts). r' \<noteq> ptr b \<and> r' \<noteq> desired b"
    proof
      fix b assume "b \<in> set (drop (Suc m) acts)"
      then obtain j where j: "j < length (drop (Suc m) acts)" "b = drop (Suc m) acts ! j"
        by (auto simp: in_set_conv_nth)
      then have "b = acts ! (Suc m + j)" "Suc m + j < length acts" by simp_all
      with o [rule_format, of "Suc m + j"] show "r' \<noteq> ptr b \<and> r' \<noteq> desired b" by auto
    qed
    from publish_other [OF this u]
    have "loadNewest r' (foldl (\<lambda>s a. adjustNewest a s) (publish (Suc m)) (drop (Suc m) acts)) =
          loadNewest r' (publish (Suc m))" .
    moreover have "publish (length acts) =
        foldl (\<lambda>s a. adjustNewest a s) (publish (Suc m)) (drop (Suc m) acts)"
      unfolding publish_def
      using publish_rest [of "copyCleanActions f" acts "Suc m"] by simp
    ultimately show ?thesis by (simp add: two)
  qed
  from zero one two three four five show ?thesis by blast
qed

text \<open>
  An example: a page with the records of key 3 (head 7, an update at version 14) and
  key 4, low-water mark 6. A writer installs the head 8 on key 3 while \<^verbatim>\<open>clean\<close> is at
  key 4, and the head 9 when \<^verbatim>\<open>flushFillPage\<close> attempts the first exchange. The record of
  key 3 ends up pointing to its new entry, whose \<^verbatim>\<open>newest\<close> is 9, with 8 behind it.
\<close>

definition example_source_page :: "nat ColumnMapMainPage" where
  "example_source_page =
     \<lparr>count = 2,
      entryData = (\<lambda>j. if j = 0 then \<lparr>key = 3, version = 9, newest = UpdatePtr 7\<rparr>
                        else \<lparr>key = 4, version = 8, newest = NullPtr\<rparr>),
      sizeData = (\<lambda>j. 20),
      recordData = (\<lambda>j. if j = 0 then 309 else 408)\<rparr>"

definition example_source_updates :: "newest_ptr \<Rightarrow> nat UpdateLogEntry list" where
  "example_source_updates p =
     (if p = UpdatePtr 7 then
        [\<lparr>logType = DATA, logKey = 3, logVersion = 14, dataSize = 30, logData = 314\<rparr>]
      else [])"

definition example_source :: "nat modifier" where
  "example_source =
     ColumnMapPageModifier_init example_ctx (\<lambda>_. example_source_page) 1
       [3 \<mapsto> (0, 0), 4 \<mapsto> (0, 1)]
       [[], [((0, 0), UpdatePtr 8)], [((0, 0), UpdatePtr 9)]] 6"

definition example_cleaned :: "nat modifier" where
  "example_cleaned = snd (the (clean 2 example_ctx example_source_updates 0 example_source))"

definition example_previousOf :: "newest_ptr \<Rightarrow> newest_ptr" where
  "example_previousOf p =
     (if p = UpdatePtr 9 then UpdatePtr 8 else if p = UpdatePtr 8 then UpdatePtr 7 else NullPtr)"

theorem flushFillPage_carries_heads_witness:
  "(case clean_iterations (Suc 0) example_ctx example_source_updates example_source_page 0
           (0, 0, 0, example_source) of
      (i', ms', me', s') \<Rightarrow>
        i' = 1 \<and>
        mPointerActions s' = [\<lparr>ptr = (0, 0), expected = UpdatePtr 7, desired = (2, 0)\<rparr>] \<and>
        mainTable s' 3 = Some (2, 0)) \<and>
   mPointerActions example_cleaned =
     [\<lparr>ptr = (0, 0), expected = UpdatePtr 7, desired = (2, 0)\<rparr>,
      \<lparr>ptr = (0, 1), expected = NullPtr, desired = (2, 2)\<rparr>] \<and>
   loadNewest (0, 0) example_cleaned = UpdatePtr 8 \<and>
   sched example_cleaned = [[((0, 0), UpdatePtr 9)]] \<and>
   linked example_previousOf (UpdatePtr 7) [UpdatePtr 8, UpdatePtr 9] \<and>
   loadNewest (0, 0) (flushFillPage example_cleaned) = MainPtr (2, 0) \<and>
   loadNewest (2, 0) (flushFillPage example_cleaned) = UpdatePtr 9 \<and>
   UpdatePtr 8 \<in> set (followPrevious example_previousOf 2
                  (loadNewest (2, 0) (flushFillPage example_cleaned))) \<and>
   UpdatePtr 9 \<in> set (followPrevious example_previousOf 2
                  (loadNewest (2, 0) (flushFillPage example_cleaned)))"
proof -
  let ?a0 = "\<lparr>ptr = (0, 0), expected = UpdatePtr 7, desired = (2, 0)\<rparr>"
  let ?a1 = "\<lparr>ptr = (0, 1), expected = NullPtr, desired = (2, 2)\<rparr>"
  let ?B0 = "copyCleanActions example_cleaned"
  let ?B1 = "adjustNewest ?a0 ?B0"
  let ?I = "clean_iterations (Suc 0) example_ctx example_source_updates example_source_page 0
           (0, 0, 0, example_source)"
  let ?s1 = "snd (snd (snd ?I))"
  have src: "pages example_source 0 = example_source_page"
    by (simp add: example_source_def ColumnMapPageModifier_init_def)
  have it0: "clean_iterations 0 example_ctx example_source_updates (pages example_source 0) 0
      (0, 0, 0, example_source) = (0, 0, 0, example_source)"
    by (simp add: clean_iterations_def)
  have "fst ?I = 1" "fst (snd ?I) = 0" "fst (snd (snd ?I)) = 1" by code_simp+
  then have it1: "?I = (1, 0, 1, ?s1)" by (simp add: prod_eq_iff)
  have c: "0 < count example_source_page" by (simp add: example_source_page_def)
  have ni: "loadNewest (0, 0) ?s1 \<noteq> InvalidTag" by code_simp
  have st: "mPointerActions example_source = []" "mFillPage example_source = 2"
    "mFillEndIdx example_source = 0" "loadNewest (0, 0) (interfere example_source) = UpdatePtr 7"
    "key (entryData example_source_page 0) = 3"
    by code_simp+
  have acts: "mPointerActions example_cleaned = [?a0, ?a1]" by code_simp
  have ev: "sched ?B0 = [[((0, 0), UpdatePtr 9)]]" "sched ?B1 = []"
    "loadNewest (0, 0) ?B0 = UpdatePtr 8" "loadNewest (2, 0) ?B1 = UpdatePtr 9"
    "loadNewest (0, 0) ?B1 = MainPtr (2, 0)"
    by code_simp+
  have cl: "loadNewest (0, 0) example_cleaned = UpdatePtr 8"
    "sched example_cleaned = [[((0, 0), UpdatePtr 9)]]"
    by code_simp+
  have li: "linked example_previousOf (UpdatePtr 7) [UpdatePtr 8, UpdatePtr 9]"
    by (simp add: example_previousOf_def)
  note t = flushFillPage_carries_heads
      [where st = example_source and page = 0 and k = 0 and ctx = example_ctx
         and updates = example_source_updates and i = 0 and ms = 0 and me = 0
         and s = example_source and i' = 1 and ms' = 0 and me' = 1 and s' = ?s1
         and f = example_cleaned and m = 0 and previousOf = example_previousOf
         and history = "[UpdatePtr 8]"]
  from t [THEN conjunct2, THEN conjunct1] it0 it1 c ni
  have r1: "mPointerActions ?s1 = [?a0] \<and> mainTable ?s1 3 = Some (2, 0)"
    by (simp add: src st)
  from t [THEN conjunct2, THEN conjunct2, THEN conjunct2, THEN conjunct2, THEN conjunct1] li
  have r4: "\<forall>p\<in>set [UpdatePtr 8, UpdatePtr 9].
      p \<in> set (followPrevious example_previousOf (Suc (Suc 0)) (loadNewest (2, 0) ?B1))"
    by (simp add: acts ev untouched_def writesTo_def)
  have o: "\<forall>m'. 0 < m' \<and> m' < length (mPointerActions example_cleaned) \<longrightarrow>
      ptr (mPointerActions example_cleaned ! m') \<noteq> r \<and>
      desired (mPointerActions example_cleaned ! m') \<noteq> r"
    if "r = (2, 0) \<or> r = (0, 0)" for r :: "nat \<times> nat"
  proof (intro allI impI)
    fix m' assume "0 < m' \<and> m' < length (mPointerActions example_cleaned)"
    then have "m' = 1" by (simp add: acts)
    with that show "ptr (mPointerActions example_cleaned ! m') \<noteq> r \<and>
      desired (mPointerActions example_cleaned ! m') \<noteq> r"
      by (auto simp: acts)
  qed
  from t [where r' = "(2, 0)", THEN conjunct2, THEN conjunct2, THEN conjunct2, THEN conjunct2,
          THEN conjunct2]
    o [of "(2, 0)"]
  have r5: "loadNewest (2, 0) (flushFillPage example_cleaned) = UpdatePtr 9"
    by (simp add: acts ev untouched_def)
  from t [where r' = "(0, 0)", THEN conjunct2, THEN conjunct2, THEN conjunct2, THEN conjunct2,
          THEN conjunct2]
    o [of "(0, 0)"]
  have r6: "loadNewest (0, 0) (flushFillPage example_cleaned) = MainPtr (2, 0)"
    by (simp add: acts ev untouched_def)
  from r4 [unfolded ev]
  have r8: "UpdatePtr 8 \<in> set (followPrevious example_previousOf 2 (UpdatePtr 9))"
    and r9: "UpdatePtr 9 \<in> set (followPrevious example_previousOf 2 (UpdatePtr 9))"
    by (simp_all add: numeral_2_eq_2)
  show ?thesis
    unfolding r5 r6
    apply (subst it1)
    apply (simp only: prod.case)
    using r1 acts cl li r8 r9 by blast
qed

section \<open>Revert on the delta chain of a record\<close>

text \<open>
  Modelled from the spec: \<^verbatim>\<open>revert\<close> and the read path of a record.
  \<^verbatim>\<open>DMRecordImplBase::revert\<close> and \<^verbatim>\<open>DMRecordImplBase::data\<close> are declared in
  \<^verbatim>\<open>deltamain/Record.hpp\<close> (under the comment "TODO: Implement revert") and
  \<^verbatim>\<open>ServerSocket::handleRevert\<close> only forwards to the storage; their code is not part of
  the sources. The spec's log entry has a kind, a version, bytes and, per the comment in
  \<^verbatim>\<open>Record.hpp\<close>, a byte that says whether the entry got reverted. A record is its delta
  chain, newest first, followed by its main versions, newest first (no payload: a delete).
\<close>

datatype LogEntryKind = Insert | Update | Delete | Data

record 'd LogEntry =
  entryKind :: LogEntryKind
  entryVersion :: "64 word"
  reverted :: bool
  entryPayload :: 'd

datatype 'd read_result = NotFound | Found "64 word" 'd

text \<open>
  A version is visible under a snapshot iff it is at most the snapshot's version and not
  in flight; the bitset of the descriptor covers the versions above the base version.
\<close>

definition inFlight :: "SnapshotDescriptor \<Rightarrow> 64 word \<Rightarrow> bool" where
  "inFlight S v =
     (snapshot_baseVersion S < v \<and>
      unat (v - snapshot_baseVersion S - 1) < length (snapshot_descriptor S) \<and>
      snapshot_descriptor S ! unat (v - snapshot_baseVersion S - 1))"

definition visible :: "SnapshotDescriptor \<Rightarrow> 64 word \<Rightarrow> bool" where
  "visible S v = (v \<le> snapshot_version S \<and> \<not> inFlight S v)"

text \<open>
  The read path: walk the chain, skip what is reverted, stop at the first visible entry
  (a delete reads as not-found), and fall through to the main with the same test.
\<close>

fun readMain :: "SnapshotDescriptor \<Rightarrow> (64 word \<times> 'd option) list \<Rightarrow> 'd read_result" where
  "readMain S [] = NotFound"
| "readMain S ((v, p) # rest) =
     (if visible S v then (case p of None \<Rightarrow> NotFound | Some d \<Rightarrow> Found v d)
      else readMain S rest)"

fun readRecord ::
    "SnapshotDescriptor \<Rightarrow> 'd LogEntry list \<Rightarrow> (64 word \<times> 'd option) list \<Rightarrow> 'd read_result" where
  "readRecord S [] main = readMain S main"
| "readRecord S (e # es) main =
     (if reverted e then readRecord S es main
      else if visible S (entryVersion e) then
        (if entryKind e = Delete then NotFound else Found (entryVersion e) (entryPayload e))
      else readRecord S es main)"

text \<open>
  \<^verbatim>\<open>revert(version)\<close> marks the log entry at the version as reverted; it returns false,
  and changes nothing, when the chain has no entry at that version left to revert.
\<close>

definition revert :: "64 word \<Rightarrow> 'd LogEntry list \<Rightarrow> bool \<times> 'd LogEntry list" where
  "revert v chain =
     (if \<exists>e\<in>set chain. entryVersion e = v \<and> \<not> reverted e
      then (True, map (\<lambda>e. if entryVersion e = v then e\<lparr>reverted := True\<rparr> else e) chain)
      else (False, chain))"

text \<open>Versions strictly decrease along a record, from the newest to the oldest.\<close>

fun decreasing :: "64 word list \<Rightarrow> bool" where
  "decreasing [] = True"
| "decreasing [v] = True"
| "decreasing (v # w # vs) = (w < v \<and> decreasing (w # vs))"

definition result_below :: "64 word \<Rightarrow> 'd read_result \<Rightarrow> bool" where
  "result_below v r = (case r of NotFound \<Rightarrow> True | Found w d \<Rightarrow> w < v)"

definition snapshot60 :: SnapshotDescriptor where
  "snapshot60 = \<lparr>snapshot_lowestActiveVersion = 1, snapshot_baseVersion = 60,
                  snapshot_version = 60, snapshot_descriptor = []\<rparr>"

definition only_insert :: "nat LogEntry list" where
  "only_insert = [\<lparr>entryKind = Insert, entryVersion = 50, reverted = False, entryPayload = 5\<rparr>]"

definition update_on_insert :: "nat LogEntry list" where
  "update_on_insert =
     [\<lparr>entryKind = Update, entryVersion = 50, reverted = False, entryPayload = 5\<rparr>,
      \<lparr>entryKind = Insert, entryVersion = 40, reverted = False, entryPayload = 4\<rparr>]"

lemma readRecord_map_revert:
  "readRecord S (map (\<lambda>e. if entryVersion e = v then e\<lparr>reverted := True\<rparr> else e) chain) main =
   readRecord S (filter (\<lambda>e. entryVersion e \<noteq> v) chain) main"
  by (induction chain) simp_all

lemma decreasing_Cons: "decreasing (v # vs) \<Longrightarrow> decreasing vs \<and> (\<forall>w\<in>set vs. w < v)"
proof (induction vs arbitrary: v)
  case Nil
  show ?case by simp
next
  case (Cons w vs)
  then have "w < v" and d: "decreasing (w # vs)" by simp_all
  from Cons.IH [OF d] \<open>w < v\<close> d show ?case by auto
qed

lemma readMain_in: "readMain S main = Found w d \<Longrightarrow> w \<in> fst ` set main"
  by (induction main) (auto split: if_splits option.splits)

lemma readRecord_in:
  "readRecord S chain main = Found w d \<Longrightarrow>
   w \<in> entryVersion ` set chain \<union> fst ` set main"
  by (induction chain) (auto split: if_splits dest: readMain_in)

lemma readRecord_in_filter:
  "readRecord S (filter P chain) main = Found w d \<Longrightarrow>
   w \<in> entryVersion ` set chain \<union> fst ` set main"
  using readRecord_in [of S "filter P chain" main w d] by auto

lemma readRecord_filter_below:
  "decreasing (map entryVersion chain @ map fst main) \<Longrightarrow>
   v \<in> entryVersion ` set chain \<Longrightarrow>
   readRecord S chain main = Found v d \<Longrightarrow>
   result_below v (readRecord S (filter (\<lambda>e. entryVersion e \<noteq> v) chain) main)"
proof (induction chain)
  case Nil
  then show ?case by simp
next
  case (Cons e es)
  from Cons.prems(1) have d: "decreasing (map entryVersion es @ map fst main)"
    and b: "\<forall>w\<in>set (map entryVersion es @ map fst main). w < entryVersion e"
    using decreasing_Cons [of "entryVersion e" "map entryVersion es @ map fst main"] by simp_all
  show ?case
  proof (cases "entryVersion e = v")
    case True
    have "result_below v (readRecord S [x\<leftarrow>es. entryVersion x \<noteq> v] main)"
    proof (cases "readRecord S [x\<leftarrow>es. entryVersion x \<noteq> v] main")
      case NotFound
      then show ?thesis by (simp add: result_below_def)
    next
      case (Found w d')
      from readRecord_in_filter [OF Found] b True have "w < v" by auto
      with Found show ?thesis by (simp add: result_below_def)
    qed
    with True show ?thesis by simp
  next
    case False
    with Cons.prems(2) have m: "v \<in> entryVersion ` set es" by auto
    from False Cons.prems(3) have r: "readRecord S es main = Found v d"
      and s: "reverted e \<or> \<not> visible S (entryVersion e)"
      by (auto split: if_splits)
    from Cons.IH [OF d m r] False s show ?thesis by auto
  qed
qed

text \<open>
  C7, as stated, fails: when the entry reverted is the only version of the key, a get
  under the later snapshot returns not-found, not the payload of a predecessor.
\<close>

theorem revert_without_predecessor:
  "revert 50 only_insert =
     (True, [\<lparr>entryKind = Insert, entryVersion = 50, reverted = True, entryPayload = 5\<rparr>]) \<and>
   visible snapshot60 50 \<and>
   readRecord snapshot60 only_insert [] = Found 50 5 \<and>
   readRecord snapshot60 (snd (revert 50 only_insert)) [] = NotFound"
  by (simp add: revert_def only_insert_def visible_def inFlight_def snapshot60_def)

text \<open>
  C7, amended. After \<^verbatim>\<open>revert\<close> of the log entry at version \<open>v\<close>, every get reads the record
  as if the chain had no entry at \<open>v\<close>, so it never returns the reverted entry; where the
  get returned the log entry of version \<open>v\<close> before, it now returns the payload of a
  version below \<open>v\<close>, or not-found when no visible predecessor is left or it is a delete. \<^verbatim>\<open>revert\<close> returns
  true exactly when the chain holds an entry at \<open>v\<close> that is not yet reverted, and
  otherwise leaves the chain as it is.
\<close>

theorem revert_skips_entry:
  "readRecord S (snd (revert v chain)) main =
     readRecord S (filter (\<lambda>e. entryVersion e \<noteq> v) chain) main \<and>
   fst (revert v chain) = (\<exists>e\<in>set chain. entryVersion e = v \<and> \<not> reverted e) \<and>
   (\<not> fst (revert v chain) \<longrightarrow> snd (revert v chain) = chain) \<and>
   (decreasing (map entryVersion chain @ map fst main) \<and> fst (revert v chain) \<and>
    readRecord S chain main = Found v d \<longrightarrow>
      result_below v (readRecord S (snd (revert v chain)) main))"
proof -
  have skip: "readRecord S (snd (revert v chain)) main =
      readRecord S (filter (\<lambda>e. entryVersion e \<noteq> v) chain) main"
  proof (cases "\<exists>e\<in>set chain. entryVersion e = v \<and> \<not> reverted e")
    case True
    then show ?thesis by (simp add: revert_def readRecord_map_revert)
  next
    case False
    then have "map (\<lambda>e. if entryVersion e = v then e\<lparr>reverted := True\<rparr> else e) chain = chain"
      by (induction chain) auto
    with readRecord_map_revert [of S v chain main] False show ?thesis
      by (simp add: revert_def)
  qed
  have ok: "fst (revert v chain) = (\<exists>e\<in>set chain. entryVersion e = v \<and> \<not> reverted e)"
    by (simp add: revert_def)
  have same: "\<not> fst (revert v chain) \<longrightarrow> snd (revert v chain) = chain"
    by (simp add: revert_def)
  have pred: "result_below v (readRecord S (snd (revert v chain)) main)"
    if d: "decreasing (map entryVersion chain @ map fst main)"
      and f: "fst (revert v chain)"
      and r: "readRecord S chain main = Found v d"
  proof -
    from f ok have "v \<in> entryVersion ` set chain" by auto
    from readRecord_filter_below [OF d this r] skip show ?thesis by simp
  qed
  from skip ok same pred show ?thesis by blast
qed

theorem revert_skips_entry_witness:
  "decreasing (map entryVersion update_on_insert @ map fst ([] :: (64 word \<times> nat option) list)) \<and>
   readRecord snapshot60 update_on_insert [] = Found 50 5 \<and>
   fst (revert 50 update_on_insert) \<and>
   readRecord snapshot60 (snd (revert 50 update_on_insert)) [] = Found 40 4 \<and>
   result_below 50 (readRecord snapshot60 (snd (revert 50 update_on_insert)) [])"
proof -
  have d: "decreasing (map entryVersion update_on_insert @
             map fst ([] :: (64 word \<times> nat option) list))"
    by (simp add: update_on_insert_def)
  have v: "visible snapshot60 50" "visible snapshot60 40"
    by (simp_all add: visible_def inFlight_def snapshot60_def)
  have r: "readRecord snapshot60 update_on_insert [] = Found 50 5"
    by (simp add: update_on_insert_def v)
  have f: "readRecord snapshot60 (filter (\<lambda>e. entryVersion e \<noteq> 50) update_on_insert) [] =
             Found 40 4"
    by (simp add: update_on_insert_def v)
  have e: "\<exists>e\<in>set update_on_insert. entryVersion e = 50 \<and> \<not> reverted e"
    by (simp add: update_on_insert_def)
  from revert_skips_entry [of snapshot60 50 update_on_insert "[]" 5] d r f e
  show ?thesis by (simp add: result_below_def)
qed

end
